theory Spec2Isabelle
  imports Main
begin

section \<open>Connect Four: the program of mcts.py\<close>

text \<open>
  The board of the program is a Python list of six rows, each a list of seven
  one-character strings: \<open>''.''\<close> for an empty cell, \<open>''R''\<close> and \<open>''Y''\<close> for
  the two players. Row 0 is the top row, row 5 the bottom row. A player is the
  string of its piece. Indices are Python integers, so a negative index counts
  from the end of the list and an index outside the list raises IndexError.
\<close>

subsection \<open>Python lists and the board\<close>

type_synonym board = "string list list"

datatype error = IndexError | AttributeError | InvalidMoveError | NoLegalMoveError

text \<open>
  \<open>IndexError\<close> is raised by an index outside a list, by \<open>pop\<close> on an empty
  list and by \<open>random.choice\<close> on an empty list; \<open>AttributeError\<close> by an
  attribute of None. The other two constructors are the error kinds of the
  specification; no function below ever produces them.
\<close>

text \<open>
  The constants \<open>ROWS\<close> and \<open>COLS\<close> of the source, and \<open>range(n)\<close> and
  \<open>range(a, n)\<close> as lists of integers.
\<close>

definition ROWS :: int where
  "ROWS = 6"

definition COLS :: int where
  "COLS = 7"

definition py_range :: "int \<Rightarrow> int list" where
  "py_range n = [0..n - 1]"

definition py_range2 :: "int \<Rightarrow> int \<Rightarrow> int list" where
  "py_range2 a n = [a..n - 1]"

text \<open>\<open>xs[i]\<close> of Python: a negative \<open>i\<close> is taken from the end.\<close>

definition py_index :: "'a list \<Rightarrow> int \<Rightarrow> error + 'a" where
  "py_index xs i =
     (if 0 \<le> i \<and> i < int (length xs) then Inr (xs ! nat i)
      else if i < 0 \<and> - int (length xs) \<le> i then Inr (xs ! nat (int (length xs) + i))
      else Inl IndexError)"

text \<open>\<open>xs[i] = v\<close> of Python, returning the updated list.\<close>

definition py_setitem :: "'a list \<Rightarrow> int \<Rightarrow> 'a \<Rightarrow> error + 'a list" where
  "py_setitem xs i v =
     (if 0 \<le> i \<and> i < int (length xs) then Inr (xs[nat i := v])
      else if i < 0 \<and> - int (length xs) \<le> i then Inr (xs[nat (int (length xs) + i) := v])
      else Inl IndexError)"

text \<open>\<open>board[row][col]\<close>: the row is fetched first, then the cell.\<close>

definition cell :: "board \<Rightarrow> int \<Rightarrow> int \<Rightarrow> error + string" where
  "cell b row col =
     (case py_index b row of
        Inl e \<Rightarrow> Inl e
      | Inr r \<Rightarrow> py_index r col)"

text \<open>\<open>board[row][col] = v\<close>, on a board whose rows are separate lists.\<close>

definition set_cell :: "board \<Rightarrow> int \<Rightarrow> int \<Rightarrow> string \<Rightarrow> error + board" where
  "set_cell b row col v =
     (case py_index b row of
        Inl e \<Rightarrow> Inl e
      | Inr r \<Rightarrow>
          (case py_setitem r col v of
             Inl e \<Rightarrow> Inl e
           | Inr r' \<Rightarrow> py_setitem b row r'))"

subsection \<open>Loops with an early \<open>return True\<close>, and the short-circuit \<open>and\<close>\<close>

text \<open>
  \<open>for x in xs: if t(x): return True\<close>, followed by falling out of the loop:
  the first error stops the loop, the first hit returns, and the remaining
  elements are never looked at.
\<close>

fun first_hit :: "('a \<Rightarrow> error + bool) \<Rightarrow> 'a list \<Rightarrow> error + bool" where
  "first_hit t [] = Inr False"
| "first_hit t (x # xs) =
     (case t x of
        Inl e \<Rightarrow> Inl e
      | Inr True \<Rightarrow> Inr True
      | Inr False \<Rightarrow> first_hit t xs)"

text \<open>\<open>a and b\<close>: \<open>b\<close> is evaluated only when \<open>a\<close> is true.\<close>

definition and_then :: "error + bool \<Rightarrow> error + bool \<Rightarrow> error + bool" where
  "and_then a b = (case a of Inl e \<Rightarrow> Inl e | Inr False \<Rightarrow> Inr False | Inr True \<Rightarrow> b)"

text \<open>
  Falling from one search loop into the next: the second part runs only when the
  first has returned neither True nor an error.
\<close>

definition or_else :: "error + bool \<Rightarrow> error + bool \<Rightarrow> error + bool" where
  "or_else a b = (case a of Inl e \<Rightarrow> Inl e | Inr True \<Rightarrow> Inr True | Inr False \<Rightarrow> b)"

text \<open>\<open>board[row][col] == player\<close>\<close>

definition cell_is :: "board \<Rightarrow> int \<Rightarrow> int \<Rightarrow> string \<Rightarrow> error + bool" where
  "cell_is b row col player =
     (case cell b row col of Inl e \<Rightarrow> Inl e | Inr v \<Rightarrow> Inr (v = player))"

subsection \<open>get_valid_moves, make_move, check_winner, get_next_player\<close>

text \<open>
  \<open>get_valid_moves\<close> appends to the result list every column of
  \<open>range(COLS)\<close> whose cell in row 0 is \<open>''.''\<close>.
\<close>

fun valid_moves_loop :: "board \<Rightarrow> int list \<Rightarrow> int list \<Rightarrow> error + int list" where
  "valid_moves_loop b [] acc = Inr acc"
| "valid_moves_loop b (col # cols) acc =
     (case cell b 0 col of
        Inl e \<Rightarrow> Inl e
      | Inr v \<Rightarrow> valid_moves_loop b cols (if v = ''.'' then acc @ [col] else acc))"

definition get_valid_moves :: "board \<Rightarrow> error + int list" where
  "get_valid_moves b = valid_moves_loop b (py_range COLS) []"

text \<open>
  \<open>make_move\<close> works on a deep copy of the board; as a value the copy is the
  board itself. The rows are visited from the bottom (\<open>reversed(range(ROWS))\<close>);
  the first empty cell found is overwritten and the loop is left. When no cell of
  the column is empty the loop runs out and the copy is returned as it is.
\<close>

fun make_move_loop :: "board \<Rightarrow> int \<Rightarrow> string \<Rightarrow> int list \<Rightarrow> error + board" where
  "make_move_loop nb col player [] = Inr nb"
| "make_move_loop nb col player (row # rows) =
     (case cell nb row col of
        Inl e \<Rightarrow> Inl e
      | Inr v \<Rightarrow>
          if v = ''.'' then set_cell nb row col player
          else make_move_loop nb col player rows)"

definition make_move :: "board \<Rightarrow> int \<Rightarrow> string \<Rightarrow> error + board" where
  "make_move b col player = make_move_loop b col player (rev (py_range ROWS))"

text \<open>
  The four tests of \<open>check_winner\<close>, each for one origin: four cells to the
  right, downwards, diagonally down to the right, and diagonally up to the right.
\<close>

definition horizontal_at :: "board \<Rightarrow> string \<Rightarrow> int \<Rightarrow> int \<Rightarrow> error + bool" where
  "horizontal_at b player row col =
     and_then (cell_is b row col player)
    (and_then (cell_is b row (col + 1) player)
    (and_then (cell_is b row (col + 2) player)
              (cell_is b row (col + 3) player)))"

definition vertical_at :: "board \<Rightarrow> string \<Rightarrow> int \<Rightarrow> int \<Rightarrow> error + bool" where
  "vertical_at b player col row =
     and_then (cell_is b row col player)
    (and_then (cell_is b (row + 1) col player)
    (and_then (cell_is b (row + 2) col player)
              (cell_is b (row + 3) col player)))"

definition down_right_at :: "board \<Rightarrow> string \<Rightarrow> int \<Rightarrow> int \<Rightarrow> error + bool" where
  "down_right_at b player row col =
     and_then (cell_is b row col player)
    (and_then (cell_is b (row + 1) (col + 1) player)
    (and_then (cell_is b (row + 2) (col + 2) player)
              (cell_is b (row + 3) (col + 3) player)))"

definition up_right_at :: "board \<Rightarrow> string \<Rightarrow> int \<Rightarrow> int \<Rightarrow> error + bool" where
  "up_right_at b player row col =
     and_then (cell_is b row col player)
    (and_then (cell_is b (row - 1) (col + 1) player)
    (and_then (cell_is b (row - 2) (col + 2) player)
              (cell_is b (row - 3) (col + 3) player)))"

text \<open>
  The four double loops of \<open>check_winner\<close>, in the order of the source. Each
  returns True at its first hit; the next one starts only when the previous one
  ran out.
\<close>

definition check_winner :: "board \<Rightarrow> string \<Rightarrow> error + bool" where
  "check_winner b player =
     or_else (first_hit (\<lambda>row. first_hit (horizontal_at b player row) (py_range (COLS - 3)))
                (py_range ROWS))
    (or_else (first_hit (\<lambda>col. first_hit (vertical_at b player col) (py_range (ROWS - 3)))
                (py_range COLS))
    (or_else (first_hit (\<lambda>row. first_hit (down_right_at b player row) (py_range (COLS - 3)))
                (py_range (ROWS - 3)))
             (first_hit (\<lambda>row. first_hit (up_right_at b player row) (py_range (COLS - 3)))
                (py_range2 3 ROWS))))"

text \<open>
  \<open>get_next_player\<close> returns ''R'' for ''Y'' and ''Y'' for every other string.
\<close>

definition get_next_player :: "string \<Rightarrow> string" where
  "get_next_player current_player = (if current_player = ''Y'' then ''R'' else ''Y'')"

subsection \<open>find_immediate_win_or_block\<close>

text \<open>
  Both loops of \<open>find_immediate_win_or_block\<close> have the same body: try the
  columns of \<open>get_valid_moves\<close> in order, apply each for the given player to
  the unchanged board, and return the first column after which \<open>check_winner\<close>
  holds for that player.
\<close>

fun find_winning_col :: "board \<Rightarrow> string \<Rightarrow> int list \<Rightarrow> error + int option" where
  "find_winning_col b player [] = Inr None"
| "find_winning_col b player (col # cols) =
     (case make_move b col player of
        Inl e \<Rightarrow> Inl e
      | Inr temp_board \<Rightarrow>
          (case check_winner temp_board player of
             Inl e \<Rightarrow> Inl e
           | Inr True \<Rightarrow> Inr (Some col)
           | Inr False \<Rightarrow> find_winning_col b player cols))"

definition find_immediate_win_or_block :: "board \<Rightarrow> string \<Rightarrow> error + int option" where
  "find_immediate_win_or_block b current_player =
     (case get_valid_moves b of
        Inl e \<Rightarrow> Inl e
      | Inr moves \<Rightarrow>
          (case find_winning_col b current_player moves of
             Inl e \<Rightarrow> Inl e
           | Inr (Some col) \<Rightarrow> Inr (Some col)
           | Inr None \<Rightarrow>
               (let opponent = get_next_player current_player in
                case get_valid_moves b of
                  Inl e \<Rightarrow> Inl e
                | Inr moves' \<Rightarrow> find_winning_col b opponent moves')))"

subsection \<open>simulate_game\<close>

text \<open>
  The number of empty cells of a board, of any shape. It is the measure by which
  the rollout loop terminates.
\<close>

definition empties :: "board \<Rightarrow> nat" where
  "empties b = sum_list (map (\<lambda>r. count_list r ''.'') b)"

text \<open>
  \<open>random.choice(xs)\<close> raises IndexError on an empty list and returns one of
  the elements otherwise. The random source is an explicit stream of draws
  \<open>rnd\<close>; draw number \<open>k\<close> selects the index \<open>rnd k mod len(xs)\<close>, so every
  choice function on non-empty lists is covered by some stream.
\<close>

definition random_choice :: "(nat \<Rightarrow> nat) \<Rightarrow> nat \<Rightarrow> 'a list \<Rightarrow> error + 'a" where
  "random_choice rnd k xs =
     (if xs = [] then Inl IndexError else Inr (xs ! (rnd k mod length xs)))"

text \<open>
  The \<open>while True\<close> loop of \<open>simulate_game\<close>. Besides the winner (None for a
  draw) the model returns the final board and the number of moves played, which
  the source does not return; \<open>k\<close> is the number of moves played so far and also
  the index of the next random draw. The loop terminates on every input: a move
  for ''R'' or ''Y'' removes an empty cell, and after the first move the player
  is ''R'' or ''Y''.
\<close>

function sim_loop ::
  "(nat \<Rightarrow> nat) \<Rightarrow> nat \<Rightarrow> board \<Rightarrow> string \<Rightarrow> error + (string option \<times> board \<times> nat)" where
  "sim_loop rnd k sim_board sim_player =
     (case get_valid_moves sim_board of
        Inl e \<Rightarrow> Inl e
      | Inr moves \<Rightarrow>
          if moves = [] then Inr (None, sim_board, k)
          else
            (case random_choice rnd k moves of
               Inl e \<Rightarrow> Inl e
             | Inr col \<Rightarrow>
                 (case make_move sim_board col sim_player of
                    Inl e \<Rightarrow> Inl e
                  | Inr new_board \<Rightarrow>
                      (case check_winner new_board sim_player of
                         Inl e \<Rightarrow> Inl e
                       | Inr True \<Rightarrow> Inr (Some sim_player, new_board, Suc k)
                       | Inr False \<Rightarrow>
                           sim_loop rnd (Suc k) new_board (get_next_player sim_player)))))"
  by pat_completeness auto

termination
proof (relation "measure (\<lambda>(rnd, k, b, p). 2 * empties b + (if p = ''.'' then 1 else 0))",
    goal_cases)
  case 1
  show ?case by simp
next
  case (2 rnd k sim_board sim_player moves col new_board w)
  have count_upd: "Suc (count_list (xs[i := v]) a) = count_list xs a"
    if "i < length xs" "xs ! i = a" "v \<noteq> a" for xs :: "string list" and i v a
    using that
  proof (induction xs arbitrary: i)
    case Nil
    then show ?case by simp
  next
    case (Cons x xs)
    then show ?case by (cases i) auto
  qed
  have sum_upd: "Suc (sum_list (map f (xs[i := y]))) = sum_list (map f xs)"
    if "i < length xs" "Suc (f y) = f (xs ! i)" for f :: "string list \<Rightarrow> nat" and xs i y
    using that
  proof (induction xs arbitrary: i)
    case Nil
    then show ?case by simp
  next
    case (Cons x xs)
    then show ?case by (cases i) auto
  qed
  have idx: "nat i < length xs \<and> v = xs ! nat i"
    if "0 \<le> i" "py_index xs i = Inr v" for xs :: "'a list" and i v
    using that by (auto simp: py_index_def split: if_splits)
  have setitem: "nat i < length xs \<and> ys = xs[nat i := v]"
    if "0 \<le> i" "py_setitem xs i v = Inr ys" for xs ys :: "'a list" and i v
    using that by (auto simp: py_setitem_def split: if_splits)
  have cell_ok: "nat r < length b \<and> nat c < length (b ! nat r) \<and> v = b ! nat r ! nat c"
    if "0 \<le> r" "0 \<le> c" "cell b r c = Inr v" for b r c v
  proof -
    from that(3) obtain x where x: "py_index b r = Inr x" and y: "py_index x c = Inr v"
      by (auto simp: cell_def split: sum.splits)
    show ?thesis using idx [OF that(1) x] idx [OF that(2) y] by simp
  qed
  have set_cell_ok: "b' = b[nat r := (b ! nat r)[nat c := v]]"
    if "0 \<le> r" "0 \<le> c" "set_cell b r c v = Inr b'" for b b' r c v
  proof -
    from that(3) obtain x y where x: "py_index b r = Inr x" and y: "py_setitem x c v = Inr y"
      and z: "py_setitem b r y = Inr b'"
      by (auto simp: set_cell_def split: sum.splits)
    show ?thesis
      using idx [OF that(1) x] setitem [OF that(2) y] setitem [OF that(1) z] by simp
  qed
  have loop: "(\<exists>r \<in> set rows. cell b r c = Inr ''.'' \<and> b' = b[nat r := (b ! nat r)[nat c := p]]) \<or>
         (b' = b \<and> (\<forall>r \<in> set rows. cell b r c \<noteq> Inr ''.''))"
    if "\<forall>r \<in> set rows. 0 \<le> r" "0 \<le> c" "make_move_loop b c p rows = Inr b'"
    for rows b b' c p
    using that
  proof (induction rows)
    case Nil
    then show ?case by simp
  next
    case (Cons r rows)
    from Cons.prems(3) obtain v where v: "cell b r c = Inr v" by (auto split: sum.splits)
    show ?case
    proof (cases "v = ''.''")
      case True
      then have "set_cell b r c p = Inr b'" using Cons.prems(3) v by simp
      then have "b' = b[nat r := (b ! nat r)[nat c := p]]"
        using set_cell_ok Cons.prems(1,2) by simp
      then show ?thesis using v True by simp
    next
      case False
      then have "make_move_loop b c p rows = Inr b'" using Cons.prems(3) v by simp
      then show ?thesis using Cons.IH Cons.prems(1,2) v False by auto
    qed
  qed
  have valid: "c \<in> set acc \<or> (c \<in> set cols \<and> cell b 0 c = Inr ''.'')"
    if "valid_moves_loop b cols acc = Inr ms" "c \<in> set ms" for b cols acc ms c
    using that
  proof (induction cols arbitrary: acc)
    case Nil
    then show ?case by simp
  next
    case (Cons a cols)
    from Cons.prems(1) obtain v where v: "cell b 0 a = Inr v" by (auto split: sum.splits)
    then have "valid_moves_loop b cols (if v = ''.'' then acc @ [a] else acc) = Inr ms"
      using Cons.prems(1) by simp
    from Cons.IH [OF this Cons.prems(2)] show ?case using v by (auto split: if_splits)
  qed
  have col: "col \<in> set moves" using 2(2,3) by (auto simp: random_choice_def split: if_splits)
  have top: "0 \<le> col \<and> cell sim_board 0 col = Inr ''.''"
    using valid [OF 2(1) [unfolded get_valid_moves_def] col] by (auto simp: py_range_def)
  have rows: "\<forall>r \<in> set (rev (py_range ROWS)). 0 \<le> r" by (simp add: py_range_def)
  have zero: "0 \<in> set (rev (py_range ROWS))" by (simp add: py_range_def ROWS_def)
  from loop [OF rows _ 2(4) [unfolded make_move_def]] top zero
  obtain r where r: "0 \<le> r" "cell sim_board r col = Inr ''.''"
    "new_board = sim_board[nat r := (sim_board ! nat r)[nat col := sim_player]]"
    by (auto simp: py_range_def)
  have cn: "nat r < length sim_board" "nat col < length (sim_board ! nat r)"
    "sim_board ! nat r ! nat col = ''.''"
    using cell_ok [OF r(1) _ r(2)] top by simp_all
  show ?case
  proof (cases "sim_player = ''.''")
    case True
    then have "new_board = sim_board" using r(3) cn by (metis list_update_id)
    then show ?thesis using True by (simp add: get_next_player_def)
  next
    case False
    have "Suc (count_list ((sim_board ! nat r)[nat col := sim_player]) ''.'') =
        count_list (sim_board ! nat r) ''.''"
      using count_upd [OF cn(2,3)] False by simp
    from sum_upd [of "nat r" sim_board "\<lambda>r. count_list r ''.''", OF cn(1) this]
    have "Suc (empties new_board) = empties sim_board" unfolding empties_def r(3) .
    then show ?thesis by (auto simp: get_next_player_def)
  qed
qed

declare sim_loop.simps [simp del]

definition simulate_game :: "(nat \<Rightarrow> nat) \<Rightarrow> board \<Rightarrow> string \<Rightarrow> error + string option" where
  "simulate_game rnd b current_player =
     (case sim_loop rnd 0 b current_player of
        Inl e \<Rightarrow> Inl e
      | Inr (winner, final_board, n) \<Rightarrow> Inr winner)"

subsection \<open>The search tree\<close>

text \<open>
  An \<open>MCTSNode\<close> object. Nodes refer to each other (\<open>parent\<close>, \<open>children\<close>), and
  their counters are updated in place, so the nodes live in a store: a list of
  nodes in which a reference is an index. A new node is appended to the list.
\<close>

record mcts_node =
  board :: board
  current_player :: string
  parent :: "nat option"
  children :: "nat list"
  wins :: int
  visits :: int
  untried_moves :: "int list"

type_synonym tree = "mcts_node list"

text \<open>
  \<open>backpropagate\<close> follows the parent references until it meets None. On a
  store whose parent references form a cycle the loop never ends, which is the
  result None of the model. A reference outside the store does not exist in
  Python; the model gives None for it as well.
\<close>

partial_function (option) backpropagate :: "tree \<Rightarrow> nat option \<Rightarrow> string option \<Rightarrow> tree option" where
  "backpropagate t node winner =
     (case node of
        None \<Rightarrow> Some t
      | Some a \<Rightarrow>
          if a < length t then
            (let n = t ! a;
                 n1 = n\<lparr>visits := visits n + 1\<rparr>;
                 n2 = (if winner \<noteq> None \<and> winner = Some (get_next_player (current_player n1))
                       then n1\<lparr>wins := wins n1 + 1\<rparr> else n1)
             in backpropagate (t[a := n2]) (parent n2) winner)
          else None)"

text \<open>
  The recursion equation of \<open>backpropagate\<close> is used to evaluate it on concrete
  stores.
\<close>

declare backpropagate.simps [code]

text \<open>
  The constructor of \<open>MCTSNode\<close>: the untried moves of a new node are the valid
  moves of its board.
\<close>

definition new_node :: "board \<Rightarrow> string \<Rightarrow> nat option \<Rightarrow> error + mcts_node" where
  "new_node b player par =
     (case get_valid_moves b of
        Inl e \<Rightarrow> Inl e
      | Inr moves \<Rightarrow>
          Inr \<lparr>board = b, current_player = player, parent = par, children = [],
               wins = 0, visits = 0, untried_moves = moves\<rparr>)"

text \<open>
  \<open>expand_node\<close> pops the last untried move of the node (IndexError on an empty
  list), applies it for the node's player, and appends the new child, whose
  reference is the next free index of the store, to the node's children.
\<close>

definition expand_node :: "tree \<Rightarrow> nat \<Rightarrow> error + (tree \<times> nat)" where
  "expand_node t a =
     (let node = t ! a in
      if untried_moves node = [] then Inl IndexError
      else
        (let move = last (untried_moves node);
             node1 = node\<lparr>untried_moves := butlast (untried_moves node)\<rparr>
         in case make_move (board node1) move (current_player node1) of
              Inl e \<Rightarrow> Inl e
            | Inr new_board \<Rightarrow>
                (case new_node new_board (get_next_player (current_player node1)) (Some a) of
                   Inl e \<Rightarrow> Inl e
                 | Inr child_node \<Rightarrow>
                     (let c = length t;
                          node2 = node1\<lparr>children := children node1 @ [c]\<rparr>
                      in Inr (t[a := node2] @ [child_node], c)))))"

text \<open>
  \<open>max(root_node.children, key=lambda c: c.visits)\<close>: Python's \<open>max\<close> keeps the
  first element and replaces it only by an element whose key is strictly
  greater. \<open>best\<close> is the element kept so far.
\<close>

fun max_by_visits :: "tree \<Rightarrow> nat \<Rightarrow> nat list \<Rightarrow> nat" where
  "max_by_visits t best [] = best"
| "max_by_visits t best (c # cs) =
     max_by_visits t (if visits (t ! c) > visits (t ! best) then c else best) cs"

text \<open>
  The loop that maps the chosen child back to a column: the first valid column
  whose \<open>make_move\<close> from the root board gives the child's board.
\<close>

fun column_leading_to :: "board \<Rightarrow> string \<Rightarrow> board \<Rightarrow> int list \<Rightarrow> error + int option" where
  "column_leading_to root_board player target [] = Inr None"
| "column_leading_to root_board player target (col # cols) =
     (case make_move root_board col player of
        Inl e \<Rightarrow> Inl e
      | Inr candidate_board \<Rightarrow>
          if candidate_board = target then Inr (Some col)
          else column_leading_to root_board player target cols)"

text \<open>
  The part of \<open>mcts\<close> after the search loop (lines 194 to 207), on the store
  \<open>t\<close> that the loop has left; \<open>k\<close> is the index of the next random draw.
\<close>

definition mcts_finish ::
  "tree \<Rightarrow> nat \<Rightarrow> board \<Rightarrow> string \<Rightarrow> (nat \<Rightarrow> nat) \<Rightarrow> nat \<Rightarrow> error + int" where
  "mcts_finish t root_node root_board player rnd k =
     (case children (t ! root_node) of
        [] \<Rightarrow>
          (case get_valid_moves root_board of
             Inl e \<Rightarrow> Inl e
           | Inr moves \<Rightarrow> random_choice rnd k moves)
      | c # cs \<Rightarrow>
          (let best_move_node = max_by_visits t c cs in
           case get_valid_moves root_board of
             Inl e \<Rightarrow> Inl e
           | Inr moves \<Rightarrow>
               (case column_leading_to root_board player (board (t ! best_move_node)) moves of
                  Inl e \<Rightarrow> Inl e
                | Inr (Some col) \<Rightarrow> Inr col
                | Inr None \<Rightarrow>
                    (case get_valid_moves root_board of
                       Inl e \<Rightarrow> Inl e
                     | Inr moves' \<Rightarrow> random_choice rnd k moves'))))"

text \<open>
  \<open>best_child\<close> compares floating-point UCT values. The comparison
  \<open>uct_val > best_uct\<close> is a parameter of the model: \<open>uct_gt t child best\<close> says
  whether the UCT value of \<open>child\<close> in the store \<open>t\<close> is greater than the
  greatest value so far, that of \<open>best\<close>, or minus infinity when \<open>best\<close> is None.
  The result is None when no comparison succeeds.
\<close>

fun best_child_loop ::
  "(tree \<Rightarrow> nat \<Rightarrow> nat option \<Rightarrow> bool) \<Rightarrow> tree \<Rightarrow> nat option \<Rightarrow> nat list \<Rightarrow> nat option" where
  "best_child_loop uct_gt t best [] = best"
| "best_child_loop uct_gt t best (child # cs) =
     best_child_loop uct_gt t (if uct_gt t child best then Some child else best) cs"

definition best_child :: "(tree \<Rightarrow> nat \<Rightarrow> nat option \<Rightarrow> bool) \<Rightarrow> tree \<Rightarrow> nat \<Rightarrow> nat option" where
  "best_child uct_gt t node = best_child_loop uct_gt t None (children (t ! node))"

text \<open>
  The selection loop of \<open>mcts\<close>:
  \<open>while not node.untried_moves and node.children: node = best_child(node)\<close>.
  When \<open>best_child\<close> returns None, the next test reads \<open>untried_moves\<close> of None,
  an AttributeError. A descent that never ends is the result None of the model.
\<close>

partial_function (option) select_node ::
  "(tree \<Rightarrow> nat \<Rightarrow> nat option \<Rightarrow> bool) \<Rightarrow> tree \<Rightarrow> nat \<Rightarrow> (error + nat) option" where
  "select_node uct_gt t node =
     (if untried_moves (t ! node) = [] \<and> children (t ! node) \<noteq> [] then
        (case best_child uct_gt t node of
           None \<Rightarrow> Some (Inl AttributeError)
         | Some c \<Rightarrow> select_node uct_gt t c)
      else Some (Inr node))"

declare select_node.simps [code]

text \<open>
  One pass of the search loop: selection from the root (node 0), expansion
  when the selected node has untried moves, a rollout from the node reached,
  and backpropagation of its result. The pass returns the new store and the
  index of the next random draw.
\<close>

definition mcts_pass ::
  "(tree \<Rightarrow> nat \<Rightarrow> nat option \<Rightarrow> bool) \<Rightarrow> (nat \<Rightarrow> nat) \<Rightarrow> tree \<Rightarrow> nat \<Rightarrow> (error + tree \<times> nat) option" where
  "mcts_pass uct_gt rnd t k =
     (case select_node uct_gt t 0 of
        None \<Rightarrow> None
      | Some (Inl e) \<Rightarrow> Some (Inl e)
      | Some (Inr node) \<Rightarrow>
          (case (if untried_moves (t ! node) \<noteq> [] then expand_node t node else Inr (t, node)) of
             Inl e \<Rightarrow> Some (Inl e)
           | Inr (t1, node1) \<Rightarrow>
               (case sim_loop rnd k (board (t1 ! node1)) (current_player (t1 ! node1)) of
                  Inl e \<Rightarrow> Some (Inl e)
                | Inr (winner, final_board, k') \<Rightarrow>
                    (case backpropagate t1 (Some node1) winner of
                       None \<Rightarrow> None
                     | Some t2 \<Rightarrow> Some (Inr (t2, k'))))))"

text \<open>
  The search loop runs while the wall clock has not passed the time limit
  (the parameter \<open>simulations\<close> is not read). The clock is outside the program;
  \<open>passes\<close> is the number of passes that it allows.
\<close>

fun mcts_loop ::
  "nat \<Rightarrow> (tree \<Rightarrow> nat \<Rightarrow> nat option \<Rightarrow> bool) \<Rightarrow> (nat \<Rightarrow> nat) \<Rightarrow> tree \<Rightarrow> nat \<Rightarrow> (error + tree \<times> nat) option" where
  "mcts_loop 0 uct_gt rnd t k = Some (Inr (t, k))"
| "mcts_loop (Suc passes) uct_gt rnd t k =
     (case mcts_pass uct_gt rnd t k of
        None \<Rightarrow> None
      | Some (Inl e) \<Rightarrow> Some (Inl e)
      | Some (Inr (t', k')) \<Rightarrow> mcts_loop passes uct_gt rnd t' k')"

text \<open>\<open>mcts\<close>: the root node is the only node of the first store.\<close>

definition mcts ::
  "nat \<Rightarrow> (tree \<Rightarrow> nat \<Rightarrow> nat option \<Rightarrow> bool) \<Rightarrow> (nat \<Rightarrow> nat) \<Rightarrow> nat \<Rightarrow> board \<Rightarrow> string \<Rightarrow>
   (error + int) option" where
  "mcts passes uct_gt rnd k root_board player =
     (case new_node root_board player None of
        Inl e \<Rightarrow> Some (Inl e)
      | Inr root_node \<Rightarrow>
          (case mcts_loop passes uct_gt rnd [root_node] k of
             None \<Rightarrow> None
           | Some (Inl e) \<Rightarrow> Some (Inl e)
           | Some (Inr (t, k')) \<Rightarrow> Some (mcts_finish t 0 root_board player rnd k')))"

subsection \<open>ai_move\<close>

text \<open>
  \<open>random.random()\<close> returns a double of the form \<open>n / 2^53\<close> with
  \<open>0 \<le> n < 2^53\<close>; the draw is modelled by its numerator \<open>n\<close>. A literal such as
  \<open>0.2\<close> denotes the double nearest to it, \<open>m / 2^e\<close> for the \<open>m\<close> and \<open>e\<close>
  given in \<open>ai_move\<close> below, and \<open>draw_below n m e\<close> is the exact comparison
  \<open>n / 2^53 < m / 2^e\<close> of the two doubles.
\<close>

definition draw_below :: "nat \<Rightarrow> nat \<Rightarrow> nat \<Rightarrow> bool" where
  "draw_below n m e \<longleftrightarrow> n * 2 ^ e < m * 2 ^ 53"

text \<open>
  \<open>ai_move\<close>. The call \<open>mcts(board, current_player, simulations=300,
  time_limit=1.0)\<close> is the parameter \<open>search\<close>; \<open>random.choice\<close> takes draw
  number \<open>k\<close> of the stream \<open>rnd\<close>.
\<close>

definition ai_move ::
  "(board \<Rightarrow> string \<Rightarrow> error + int) \<Rightarrow> nat \<Rightarrow> (nat \<Rightarrow> nat) \<Rightarrow> nat \<Rightarrow>
   board \<Rightarrow> string \<Rightarrow> int \<Rightarrow> error + int" where
  "ai_move search random_difficulty rnd k b player difficulty =
     (if (difficulty = 1 \<and> draw_below random_difficulty 3602879701896397 54) \<or>
         (difficulty = 2 \<and> draw_below random_difficulty 5404319552844595 55) \<or>
         (difficulty = 3 \<and> draw_below random_difficulty 3602879701896397 55) \<or>
         (difficulty = 4 \<and> draw_below random_difficulty 3602879701896397 56)
      then
        (case get_valid_moves b of
           Inl e \<Rightarrow> Inl e
         | Inr moves \<Rightarrow> random_choice rnd k moves)
      else
        (case (if difficulty = 5 then find_immediate_win_or_block b player else Inr None) of
           Inl e \<Rightarrow> Inl e
         | Inr (Some col) \<Rightarrow> Inr col
         | Inr None \<Rightarrow> search b player))"

subsection \<open>Boards as objects: make_move on a heap\<close>

text \<open>
  In Python a board is a list object that holds references to six row objects,
  and \<open>new_board[row][col] = player\<close> changes a row object in place. Whether
  the caller's board is affected depends on what \<open>copy.deepcopy\<close> has copied,
  so this part models the objects: a heap holds the row objects and the outer
  list objects, and a reference is an index. New objects are appended.
\<close>

record heap =
  row_objs :: "string list list"
  list_objs :: "nat list list"

text \<open>
  \<open>copy.deepcopy\<close> of a list of rows: each row is copied to a new object (the
  strings in it are immutable and shared). The memo maps the rows already
  copied to their copies, so a row that occurs twice in the list is copied once.
\<close>

fun copy_rows ::
  "string list list \<Rightarrow> (nat \<times> nat) list \<Rightarrow> nat list \<Rightarrow> string list list \<times> nat list" where
  "copy_rows rs memo [] = (rs, [])"
| "copy_rows rs memo (a # as) =
     (case map_of memo a of
        Some a' \<Rightarrow> (case copy_rows rs memo as of (rs', out) \<Rightarrow> (rs', a' # out))
      | None \<Rightarrow>
          (case copy_rows (rs @ [rs ! a]) ((a, length rs) # memo) as of
             (rs', out) \<Rightarrow> (rs', length rs # out)))"

definition deepcopy :: "heap \<Rightarrow> nat \<Rightarrow> heap \<times> nat" where
  "deepcopy h a =
     (case copy_rows (row_objs h) [] (list_objs h ! a) of
        (rs', out) \<Rightarrow> (\<lparr>row_objs = rs', list_objs = list_objs h @ [out]\<rparr>, length (list_objs h)))"

text \<open>
  The loop of \<open>make_move\<close> on the copy: \<open>new_board[row]\<close> is a reference to a
  row object, which is read and, at the first empty cell, written.
\<close>

fun make_move_loop_h :: "heap \<Rightarrow> nat \<Rightarrow> int \<Rightarrow> string \<Rightarrow> int list \<Rightarrow> error + heap" where
  "make_move_loop_h h nb col player [] = Inr h"
| "make_move_loop_h h nb col player (row # rest) =
     (case py_index (list_objs h ! nb) row of
        Inl e \<Rightarrow> Inl e
      | Inr ra \<Rightarrow>
          (case py_index (row_objs h ! ra) col of
             Inl e \<Rightarrow> Inl e
           | Inr v \<Rightarrow>
               if v = ''.'' then
                 (case py_setitem (row_objs h ! ra) col player of
                    Inl e \<Rightarrow> Inl e
                  | Inr r' \<Rightarrow> Inr (h\<lparr>row_objs := (row_objs h)[ra := r']\<rparr>))
               else make_move_loop_h h nb col player rest))"

definition make_move_h :: "heap \<Rightarrow> nat \<Rightarrow> int \<Rightarrow> string \<Rightarrow> error + (heap \<times> nat)" where
  "make_move_h h b col player =
     (case deepcopy h b of
        (h1, new_board) \<Rightarrow>
          (case make_move_loop_h h1 new_board col player (rev (py_range ROWS)) of
             Inl e \<Rightarrow> Inl e
           | Inr h2 \<Rightarrow> Inr (h2, new_board)))"

section \<open>Notions of the specification\<close>

subsection \<open>Well-formed boards and lines of four\<close>

text \<open>
  A board is well formed when it has six rows of seven cells. \<open>at b r c\<close> is
  the cell in row \<open>r\<close> and column \<open>c\<close> of such a board.
\<close>

definition wf_board :: "board \<Rightarrow> bool" where
  "wf_board b \<longleftrightarrow> length b = 6 \<and> (\<forall>r \<in> set b. length r = 7)"

definition at :: "board \<Rightarrow> int \<Rightarrow> int \<Rightarrow> string" where
  "at b r c = b ! nat r ! nat c"

definition on_board :: "int \<Rightarrow> int \<Rightarrow> bool" where
  "on_board r c \<longleftrightarrow> 0 \<le> r \<and> r < ROWS \<and> 0 \<le> c \<and> c < COLS"

text \<open>
  \<open>four_in_line b p r c dr dc\<close>: the four cells that start at row \<open>r\<close> and
  column \<open>c\<close> and proceed by \<open>dr\<close> rows and \<open>dc\<close> columns are all on the board
  and hold \<open>p\<close>. \<open>has_four\<close> asks for such a line in a row, in a column or along
  one of the two diagonal directions.
\<close>

definition four_in_line :: "board \<Rightarrow> string \<Rightarrow> int \<Rightarrow> int \<Rightarrow> int \<Rightarrow> int \<Rightarrow> bool" where
  "four_in_line b p r c dr dc \<longleftrightarrow>
     (\<forall>k \<in> {0..3}. on_board (r + k * dr) (c + k * dc) \<and> at b (r + k * dr) (c + k * dc) = p)"

definition has_four :: "board \<Rightarrow> string \<Rightarrow> bool" where
  "has_four b p \<longleftrightarrow>
     (\<exists>r \<in> {0..5}. \<exists>c \<in> {0..6}.
        four_in_line b p r c 0 1 \<or> four_in_line b p r c 1 0 \<or>
        four_in_line b p r c 1 1 \<or> four_in_line b p r c 1 (- 1))"

text \<open>A line of four in one given direction, anywhere on the board.\<close>

definition has_line :: "board \<Rightarrow> string \<Rightarrow> int \<Rightarrow> int \<Rightarrow> bool" where
  "has_line b p dr dc \<longleftrightarrow> (\<exists>r \<in> {0..5}. \<exists>c \<in> {0..6}. four_in_line b p r c dr dc)"

text \<open>
  The 69 lines that \<open>check_winner\<close> looks at on a well-formed board, as a
  plain predicate: one disjunct for each double loop.
\<close>

definition win_lines :: "board \<Rightarrow> string \<Rightarrow> bool" where
  "win_lines b p \<longleftrightarrow>
     (\<exists>row \<in> {0..5}. \<exists>col \<in> {0..3}.
        at b row col = p \<and> at b row (col + 1) = p \<and> at b row (col + 2) = p \<and> at b row (col + 3) = p) \<or>
     (\<exists>col \<in> {0..6}. \<exists>row \<in> {0..2}.
        at b row col = p \<and> at b (row + 1) col = p \<and> at b (row + 2) col = p \<and> at b (row + 3) col = p) \<or>
     (\<exists>row \<in> {0..2}. \<exists>col \<in> {0..3}.
        at b row col = p \<and> at b (row + 1) (col + 1) = p \<and> at b (row + 2) (col + 2) = p \<and>
        at b (row + 3) (col + 3) = p) \<or>
     (\<exists>row \<in> {3..5}. \<exists>col \<in> {0..3}.
        at b row col = p \<and> at b (row - 1) (col + 1) = p \<and> at b (row - 2) (col + 2) = p \<and>
        at b (row - 3) (col + 3) = p)"

text \<open>Reflecting the board left to right: every row is reversed.\<close>

definition mirror :: "board \<Rightarrow> board" where
  "mirror b = map rev b"

subsection \<open>Moves, gravity and reachable boards\<close>

text \<open>
  \<open>put\<close> writes one cell. \<open>lowest_empty b c r\<close> says that \<open>r\<close> is the row of the
  lowest empty cell of column \<open>c\<close> (rows are counted from the top, so the lowest
  cell has the greatest row number). \<open>gravity\<close> is the invariant of the data
  model: nothing empty below a piece.
\<close>

definition put :: "board \<Rightarrow> int \<Rightarrow> int \<Rightarrow> string \<Rightarrow> board" where
  "put b r c v = b[nat r := (b ! nat r)[nat c := v]]"

definition lowest_empty :: "board \<Rightarrow> int \<Rightarrow> int \<Rightarrow> bool" where
  "lowest_empty b c r \<longleftrightarrow>
     0 \<le> r \<and> r < ROWS \<and> at b r c = ''.'' \<and> (\<forall>r' \<in> {r + 1..ROWS - 1}. at b r' c \<noteq> ''.'')"

definition column_full :: "board \<Rightarrow> int \<Rightarrow> bool" where
  "column_full b c \<longleftrightarrow> (\<forall>r \<in> {0..ROWS - 1}. at b r c \<noteq> ''.'')"

definition gravity :: "board \<Rightarrow> bool" where
  "gravity b \<longleftrightarrow>
     (\<forall>c \<in> {0..COLS - 1}. \<forall>r \<in> {0..ROWS - 2}. at b r c \<noteq> ''.'' \<longrightarrow> at b (r + 1) c \<noteq> ''.'')"

text \<open>
  The shells start every game from
  \<open>[["." for _ in range(COLS)] for _ in range(ROWS)]\<close>, and change the board
  only by \<open>make_move\<close> on a column of \<open>get_valid_moves\<close>, for ''R'' or ''Y''.
\<close>

definition empty_board :: board where
  "empty_board = replicate (nat ROWS) (replicate (nat COLS) ''.'')"

inductive reachable :: "board \<Rightarrow> bool" where
  start: "reachable empty_board"
| move: "reachable b \<Longrightarrow> get_valid_moves b = Inr ms \<Longrightarrow> c \<in> set ms \<Longrightarrow>
         p = ''R'' \<or> p = ''Y'' \<Longrightarrow> make_move b c p = Inr b' \<Longrightarrow> reachable b'"

text \<open>
  \<open>replay\<close> plays a list of moves the way the shells do: each column must be
  among the valid moves of the board it is played on. It is used to show that a
  concrete position is reachable.
\<close>

fun replay :: "board \<Rightarrow> (int \<times> string) list \<Rightarrow> board option" where
  "replay b [] = Some b"
| "replay b ((c, p) # ms) =
     (case get_valid_moves b of
        Inl e \<Rightarrow> None
      | Inr vs \<Rightarrow>
          if c \<in> set vs \<and> (p = ''R'' \<or> p = ''Y'') then
            (case make_move b c p of Inl e \<Rightarrow> None | Inr b' \<Rightarrow> replay b' ms)
          else None)"

text \<open>
  \<open>wins_by b p c\<close>: the move of \<open>p\<close> in column \<open>c\<close> succeeds and gives \<open>p\<close> a
  line of four, the test of one column in \<open>find_immediate_win_or_block\<close>.
\<close>

definition wins_by :: "board \<Rightarrow> string \<Rightarrow> int \<Rightarrow> bool" where
  "wins_by b p c \<longleftrightarrow>
     (case make_move b c p of
        Inl e \<Rightarrow> False
      | Inr b' \<Rightarrow> check_winner b' p = Inr True)"

subsection \<open>Paths and stores of the search tree\<close>

text \<open>
  \<open>path_to_root t a as\<close>: following the parent references from \<open>a\<close> visits
  exactly the nodes \<open>as\<close>, starting with \<open>a\<close> itself and ending with a node that
  has no parent, the root.
\<close>

inductive path_to_root :: "tree \<Rightarrow> nat \<Rightarrow> nat list \<Rightarrow> bool" where
  root: "a < length t \<Longrightarrow> parent (t ! a) = None \<Longrightarrow> path_to_root t a [a]"
| step: "a < length t \<Longrightarrow> parent (t ! a) = Some a' \<Longrightarrow> path_to_root t a' as \<Longrightarrow>
         path_to_root t a (a # as)"

text \<open>What one pass of the loop body does to a node.\<close>

definition credited :: "mcts_node \<Rightarrow> string option \<Rightarrow> mcts_node" where
  "credited n winner =
     n\<lparr>visits := visits n + 1,
       wins := wins n + (if winner \<noteq> None \<and> winner = Some (get_next_player (current_player n))
                         then 1 else 0)\<rparr>"

text \<open>
  The stores that the search loop can produce for the root board \<open>b\<close> and the
  player \<open>p\<close>: it starts from the single root node, and each pass changes the
  store only by \<open>expand_node\<close> and by \<open>backpropagate\<close>, whatever node the
  selection arrives at. The root is node 0.
\<close>

inductive search_tree :: "board \<Rightarrow> string \<Rightarrow> tree \<Rightarrow> bool" where
  init: "new_node b p None = Inr n \<Longrightarrow> search_tree b p [n]"
| expand: "search_tree b p t \<Longrightarrow> a < length t \<Longrightarrow> expand_node t a = Inr (t', c) \<Longrightarrow>
           search_tree b p t'"
| backprop: "search_tree b p t \<Longrightarrow> a < length t \<Longrightarrow> backpropagate t (Some a) w = Some t' \<Longrightarrow>
             search_tree b p t'"

text \<open>
  The references to children stay inside the store.
\<close>

definition refs_ok :: "tree \<Rightarrow> bool" where
  "refs_ok t \<longleftrightarrow> 0 < length t \<and> (\<forall>a < length t. \<forall>c \<in> set (children (t ! a)). c < length t)"

text \<open>
  \<open>first_max t cs best\<close>: among the nodes \<open>cs\<close>, in this order, \<open>best\<close> has the
  greatest visit count and is the first one that has it.
\<close>

definition first_max :: "tree \<Rightarrow> nat list \<Rightarrow> nat \<Rightarrow> bool" where
  "first_max t cs best \<longleftrightarrow>
     (\<exists>pre post. cs = pre @ best # post \<and>
        (\<forall>x \<in> set pre. visits (t ! x) < visits (t ! best)) \<and>
        (\<forall>x \<in> set post. visits (t ! x) \<le> visits (t ! best)))"

text \<open>
  What every store of the search keeps true about the root and its children.
\<close>

definition root_inv :: "board \<Rightarrow> string \<Rightarrow> int list \<Rightarrow> tree \<Rightarrow> bool" where
  "root_inv b p vm t \<longleftrightarrow>
     0 < length t \<and> board (t ! 0) = b \<and> current_player (t ! 0) = p \<and>
     set (untried_moves (t ! 0)) \<subseteq> set vm \<and>
     (\<forall>c \<in> set (children (t ! 0)). c < length t \<and>
        (\<exists>col \<in> set vm. make_move b col p = Inr (board (t ! c))))"

subsection \<open>The thresholds of the difficulties\<close>

text \<open>
  The thresholds of the specification, in percent: 0.20, 0.15, 0.10 and 0.05 for
  the difficulties 1 to 4, and no randomisation otherwise.
  \<open>below_threshold n d\<close> says that the draw \<open>n / 2^53\<close> is below the threshold
  of difficulty \<open>d\<close>, as a comparison of exact fractions.
\<close>

definition threshold_percent :: "int \<Rightarrow> nat" where
  "threshold_percent d =
     (if d = 1 then 20 else if d = 2 then 15 else if d = 3 then 10 else if d = 4 then 5 else 0)"

definition below_threshold :: "nat \<Rightarrow> int \<Rightarrow> bool" where
  "below_threshold n d \<longleftrightarrow> 100 * n < threshold_percent d * 2 ^ 53"

subsection \<open>Boards on the heap\<close>

text \<open>
  The value of the board behind a reference, and the references that are boards
  whose rows are separate objects, as the list comprehension of the shells and
  \<open>deepcopy\<close> create them.
\<close>

definition board_at :: "heap \<Rightarrow> nat \<Rightarrow> board" where
  "board_at h a = map (\<lambda>ra. row_objs h ! ra) (list_objs h ! a)"

definition heap_board :: "heap \<Rightarrow> nat \<Rightarrow> bool" where
  "heap_board h a \<longleftrightarrow>
     a < length (list_objs h) \<and> (\<forall>ra \<in> set (list_objs h ! a). ra < length (row_objs h)) \<and>
     distinct (list_objs h ! a)"

section \<open>Example positions, trees and heaps\<close>

text \<open>
  A position in which ''R'' has just completed a diagonal that rises to the
  right, the moves that lead to it, the position after one more move in column
  3, and its reflection.
\<close>

definition board_diag :: board where
  "board_diag =
    [[''.'', ''.'', ''.'', ''.'', ''.'', ''.'', ''.''],
     [''.'', ''.'', ''.'', ''.'', ''.'', ''.'', ''.''],
     [''.'', ''.'', ''.'', ''R'', ''.'', ''.'', ''.''],
     [''.'', ''.'', ''R'', ''Y'', ''.'', ''.'', ''.''],
     [''.'', ''R'', ''Y'', ''Y'', ''.'', ''.'', ''.''],
     [''R'', ''Y'', ''Y'', ''R'', ''.'', ''.'', ''.'']]"

definition moves_diag :: "(int \<times> string) list" where
  "moves_diag = [(1, ''Y''), (0, ''R''), (2, ''Y''), (1, ''R''), (2, ''Y''), (3, ''R''),
                 (3, ''Y''), (2, ''R''), (3, ''Y''), (3, ''R'')]"

definition board_diag_next :: board where
  "board_diag_next =
    [[''.'', ''.'', ''.'', ''.'', ''.'', ''.'', ''.''],
     [''.'', ''.'', ''.'', ''Y'', ''.'', ''.'', ''.''],
     [''.'', ''.'', ''.'', ''R'', ''.'', ''.'', ''.''],
     [''.'', ''.'', ''R'', ''Y'', ''.'', ''.'', ''.''],
     [''.'', ''R'', ''Y'', ''Y'', ''.'', ''.'', ''.''],
     [''R'', ''Y'', ''Y'', ''R'', ''.'', ''.'', ''.'']]"

definition board_diag_mirrored :: board where
  "board_diag_mirrored =
    [[''.'', ''.'', ''.'', ''.'', ''.'', ''.'', ''.''],
     [''.'', ''.'', ''.'', ''.'', ''.'', ''.'', ''.''],
     [''.'', ''.'', ''.'', ''R'', ''.'', ''.'', ''.''],
     [''.'', ''.'', ''.'', ''Y'', ''R'', ''.'', ''.''],
     [''.'', ''.'', ''.'', ''Y'', ''Y'', ''R'', ''.''],
     [''.'', ''.'', ''.'', ''R'', ''Y'', ''Y'', ''R'']]"

text \<open>A position of a game in which column 0 is full; the players alternated.\<close>

definition board_col0_full :: board where
  "board_col0_full =
    [[''Y'', ''.'', ''.'', ''.'', ''.'', ''.'', ''.''],
     [''R'', ''.'', ''.'', ''.'', ''.'', ''.'', ''.''],
     [''Y'', ''.'', ''.'', ''.'', ''.'', ''.'', ''.''],
     [''R'', ''.'', ''.'', ''.'', ''.'', ''.'', ''.''],
     [''Y'', ''.'', ''.'', ''.'', ''.'', ''.'', ''.''],
     [''R'', ''.'', ''.'', ''.'', ''.'', ''.'', ''.'']]"

text \<open>
  ''R'' can win in column 3 and ''Y'' in column 6; the moves that lead to this
  position.
\<close>

definition board_both :: board where
  "board_both =
    [[''.'', ''.'', ''.'', ''.'', ''.'', ''.'', ''.''],
     [''.'', ''.'', ''.'', ''.'', ''.'', ''.'', ''.''],
     [''.'', ''.'', ''.'', ''.'', ''.'', ''.'', ''.''],
     [''.'', ''.'', ''.'', ''.'', ''.'', ''.'', ''Y''],
     [''.'', ''.'', ''.'', ''.'', ''.'', ''.'', ''Y''],
     [''R'', ''R'', ''R'', ''.'', ''.'', ''.'', ''Y'']]"

definition moves_both :: "(int \<times> string) list" where
  "moves_both = [(0, ''R''), (6, ''Y''), (1, ''R''), (6, ''Y''), (2, ''R''), (6, ''Y'')]"

text \<open>
  A small tree: the root 0 with children 1 and 3, and node 2 below node 1.
\<close>

definition tree_demo :: tree where
  "tree_demo =
    [\<lparr>board = empty_board, current_player = ''R'', parent = None, children = [1, 3],
      wins = 1, visits = 4, untried_moves = [0, 1, 2, 4, 5]\<rparr>,
     \<lparr>board = put empty_board 5 6 ''R'', current_player = ''Y'', parent = Some 0, children = [2],
      wins = 1, visits = 2, untried_moves = [0, 1, 2, 3, 4, 5]\<rparr>,
     \<lparr>board = put (put empty_board 5 6 ''R'') 4 6 ''Y'', current_player = ''R'', parent = Some 1,
      children = [], wins = 0, visits = 1, untried_moves = [0, 1, 2, 3, 4, 5, 6]\<rparr>,
     \<lparr>board = put empty_board 5 3 ''R'', current_player = ''Y'', parent = Some 0, children = [],
      wins = 0, visits = 2, untried_moves = [0, 1, 2, 3, 4, 5, 6]\<rparr>]"

text \<open>
  A position with two open columns and no line of four; ''R'' is to move.
\<close>

definition board_two_open :: board where
  "board_two_open =
    [[''R'', ''R'', ''Y'', ''Y'', ''R'', ''.'', ''.''],
     [''Y'', ''Y'', ''R'', ''R'', ''Y'', ''.'', ''.''],
     [''R'', ''R'', ''Y'', ''Y'', ''R'', ''.'', ''.''],
     [''Y'', ''Y'', ''R'', ''R'', ''Y'', ''.'', ''.''],
     [''R'', ''R'', ''Y'', ''Y'', ''R'', ''.'', ''.''],
     [''Y'', ''Y'', ''R'', ''R'', ''Y'', ''.'', ''.'']]"

text \<open>
  A source of random draws, and a UCT comparison that every child wins, so that
  \<open>best_child\<close> returns the last child.
\<close>

definition rnd_demo :: "nat \<Rightarrow> nat" where
  "rnd_demo k = (if even k then 0 else 3)"

definition uct_last :: "tree \<Rightarrow> nat \<Rightarrow> nat option \<Rightarrow> bool" where
  "uct_last t child best \<longleftrightarrow> True"

text \<open>
  The root node of a search from \<open>board_two_open\<close> for ''R'', and the stores
  after two and after three passes with these draws and this comparison.
\<close>

definition node_run0 :: mcts_node where
  "node_run0 =
    \<lparr>board =
            [[''R'', ''R'', ''Y'', ''Y'', ''R'', ''.'', ''.''],
             [''Y'', ''Y'', ''R'', ''R'', ''Y'', ''.'', ''.''],
             [''R'', ''R'', ''Y'', ''Y'', ''R'', ''.'', ''.''],
             [''Y'', ''Y'', ''R'', ''R'', ''Y'', ''.'', ''.''],
             [''R'', ''R'', ''Y'', ''Y'', ''R'', ''.'', ''.''],
             [''Y'', ''Y'', ''R'', ''R'', ''Y'', ''.'', ''.'']],
      current_player = ''R'', parent = None, children = [],
      wins = 0, visits = 0, untried_moves = [5, 6]\<rparr>"

definition tree_run2 :: tree where
  "tree_run2 =
    [\<lparr>board =
            [[''R'', ''R'', ''Y'', ''Y'', ''R'', ''.'', ''.''],
             [''Y'', ''Y'', ''R'', ''R'', ''Y'', ''.'', ''.''],
             [''R'', ''R'', ''Y'', ''Y'', ''R'', ''.'', ''.''],
             [''Y'', ''Y'', ''R'', ''R'', ''Y'', ''.'', ''.''],
             [''R'', ''R'', ''Y'', ''Y'', ''R'', ''.'', ''.''],
             [''Y'', ''Y'', ''R'', ''R'', ''Y'', ''.'', ''.'']],
      current_player = ''R'', parent = None, children = [1, 2],
      wins = 1, visits = 2, untried_moves = []\<rparr>,
     \<lparr>board =
            [[''R'', ''R'', ''Y'', ''Y'', ''R'', ''.'', ''.''],
             [''Y'', ''Y'', ''R'', ''R'', ''Y'', ''.'', ''.''],
             [''R'', ''R'', ''Y'', ''Y'', ''R'', ''.'', ''.''],
             [''Y'', ''Y'', ''R'', ''R'', ''Y'', ''.'', ''.''],
             [''R'', ''R'', ''Y'', ''Y'', ''R'', ''.'', ''.''],
             [''Y'', ''Y'', ''R'', ''R'', ''Y'', ''.'', ''R'']],
      current_player = ''Y'', parent = Some 0, children = [],
      wins = 1, visits = 1, untried_moves = [5, 6]\<rparr>,
     \<lparr>board =
            [[''R'', ''R'', ''Y'', ''Y'', ''R'', ''.'', ''.''],
             [''Y'', ''Y'', ''R'', ''R'', ''Y'', ''.'', ''.''],
             [''R'', ''R'', ''Y'', ''Y'', ''R'', ''.'', ''.''],
             [''Y'', ''Y'', ''R'', ''R'', ''Y'', ''.'', ''.''],
             [''R'', ''R'', ''Y'', ''Y'', ''R'', ''.'', ''.''],
             [''Y'', ''Y'', ''R'', ''R'', ''Y'', ''R'', ''.'']],
      current_player = ''Y'', parent = Some 0, children = [],
      wins = 0, visits = 1, untried_moves = [5, 6]\<rparr>]"

definition tree_run3 :: tree where
  "tree_run3 =
    [\<lparr>board =
            [[''R'', ''R'', ''Y'', ''Y'', ''R'', ''.'', ''.''],
             [''Y'', ''Y'', ''R'', ''R'', ''Y'', ''.'', ''.''],
             [''R'', ''R'', ''Y'', ''Y'', ''R'', ''.'', ''.''],
             [''Y'', ''Y'', ''R'', ''R'', ''Y'', ''.'', ''.''],
             [''R'', ''R'', ''Y'', ''Y'', ''R'', ''.'', ''.''],
             [''Y'', ''Y'', ''R'', ''R'', ''Y'', ''.'', ''.'']],
      current_player = ''R'', parent = None, children = [1, 2],
      wins = 2, visits = 3, untried_moves = []\<rparr>,
     \<lparr>board =
            [[''R'', ''R'', ''Y'', ''Y'', ''R'', ''.'', ''.''],
             [''Y'', ''Y'', ''R'', ''R'', ''Y'', ''.'', ''.''],
             [''R'', ''R'', ''Y'', ''Y'', ''R'', ''.'', ''.''],
             [''Y'', ''Y'', ''R'', ''R'', ''Y'', ''.'', ''.''],
             [''R'', ''R'', ''Y'', ''Y'', ''R'', ''.'', ''.''],
             [''Y'', ''Y'', ''R'', ''R'', ''Y'', ''.'', ''R'']],
      current_player = ''Y'', parent = Some 0, children = [],
      wins = 1, visits = 1, untried_moves = [5, 6]\<rparr>,
     \<lparr>board =
            [[''R'', ''R'', ''Y'', ''Y'', ''R'', ''.'', ''.''],
             [''Y'', ''Y'', ''R'', ''R'', ''Y'', ''.'', ''.''],
             [''R'', ''R'', ''Y'', ''Y'', ''R'', ''.'', ''.''],
             [''Y'', ''Y'', ''R'', ''R'', ''Y'', ''.'', ''.''],
             [''R'', ''R'', ''Y'', ''Y'', ''R'', ''.'', ''.''],
             [''Y'', ''Y'', ''R'', ''R'', ''Y'', ''R'', ''.'']],
      current_player = ''Y'', parent = Some 0, children = [3],
      wins = 0, visits = 2, untried_moves = [5]\<rparr>,
     \<lparr>board =
            [[''R'', ''R'', ''Y'', ''Y'', ''R'', ''.'', ''.''],
             [''Y'', ''Y'', ''R'', ''R'', ''Y'', ''.'', ''.''],
             [''R'', ''R'', ''Y'', ''Y'', ''R'', ''.'', ''.''],
             [''Y'', ''Y'', ''R'', ''R'', ''Y'', ''.'', ''.''],
             [''R'', ''R'', ''Y'', ''Y'', ''R'', ''.'', ''.''],
             [''Y'', ''Y'', ''R'', ''R'', ''Y'', ''R'', ''Y'']],
      current_player = ''R'', parent = Some 2, children = [],
      wins = 1, visits = 1, untried_moves = [5, 6]\<rparr>]"

text \<open>\<open>board_diag\<close> as an object, and the heap after a move in column 3.\<close>

definition heap_diag :: heap where
  "heap_diag = \<lparr>row_objs = board_diag, list_objs = [[0, 1, 2, 3, 4, 5]]\<rparr>"

definition heap_diag_next :: heap where
  "heap_diag_next =
     \<lparr>row_objs = board_diag @ board_diag_next,
      list_objs = [[0, 1, 2, 3, 4, 5], [6, 7, 8, 9, 10, 11]]\<rparr>"

section \<open>Properties\<close>

subsection \<open>Reading a well-formed board\<close>

lemma range_simps:
  "py_range 7 = [0,1,2,3,4,5,6]" "py_range 6 = [0,1,2,3,4,5]" "py_range 4 = [0,1,2,3]"
  "py_range 3 = [0,1,2]" "py_range2 3 6 = [3,4,5]"
  by (simp_all add: py_range_def py_range2_def upto.simps)

lemma set_py_range: "set (py_range n) = {0..n - 1}"
  by (simp add: py_range_def)

lemma set_py_range2: "set (py_range2 a n) = {a..n - 1}"
  by (simp add: py_range2_def)

lemma cell_wf:
  assumes "wf_board b" "0 \<le> r" "r < 6" "0 \<le> c" "c < 7"
  shows "cell b r c = Inr (at b r c)"
proof -
  have "nat r < length b" using assms by (simp add: wf_board_def)
  then have "length (b ! nat r) = 7" using assms(1) by (simp add: wf_board_def)
  then show ?thesis using assms by (simp add: cell_def py_index_def at_def wf_board_def)
qed

lemma cell_is_wf:
  "wf_board b \<Longrightarrow> 0 \<le> r \<Longrightarrow> r < 6 \<Longrightarrow> 0 \<le> c \<Longrightarrow> c < 7 \<Longrightarrow>
   cell_is b r c p = Inr (at b r c = p)"
  by (simp add: cell_is_def cell_wf)

lemma and_then_Inr [simp]: "and_then (Inr x) (Inr y) = Inr (x \<and> y)"
  by (cases x) (simp_all add: and_then_def)

lemma or_else_Inr [simp]: "or_else (Inr x) (Inr y) = Inr (x \<or> y)"
  by (cases x) (simp_all add: or_else_def)

lemma first_hit_pure:
  "(\<And>x. x \<in> set xs \<Longrightarrow> t x = Inr (g x)) \<Longrightarrow> first_hit t xs = Inr (\<exists>x \<in> set xs. g x)"
  by (induction xs) (auto split: sum.splits bool.splits)

lemma first_hit_nested:
  assumes "\<And>x y. x \<in> set xs \<Longrightarrow> y \<in> set ys \<Longrightarrow> t x y = Inr (g x y)"
  shows "first_hit (\<lambda>x. first_hit (t x) ys) xs = Inr (\<exists>x \<in> set xs. \<exists>y \<in> set ys. g x y)"
proof -
  have "\<And>x. x \<in> set xs \<Longrightarrow> first_hit (t x) ys = Inr (\<exists>y \<in> set ys. g x y)"
    using assms by (rule first_hit_pure)
  then show ?thesis by (rule first_hit_pure)
qed

lemma check_winner_wf:
  assumes wf: "wf_board b"
  shows "check_winner b p = Inr (win_lines b p)"
proof -
  note cw = cell_is_wf [OF wf]
  have h: "first_hit (\<lambda>row. first_hit (horizontal_at b p row) (py_range (COLS - 3))) (py_range ROWS)
        = Inr (\<exists>row \<in> set (py_range ROWS). \<exists>col \<in> set (py_range (COLS - 3)).
        at b row col = p \<and> at b row (col + 1) = p \<and> at b row (col + 2) = p \<and> at b row (col + 3) = p)"
    by (rule first_hit_nested)
       (simp add: set_py_range ROWS_def COLS_def horizontal_at_def cw)
  have v: "first_hit (\<lambda>col. first_hit (vertical_at b p col) (py_range (ROWS - 3))) (py_range COLS)
        = Inr (\<exists>col \<in> set (py_range COLS). \<exists>row \<in> set (py_range (ROWS - 3)).
        at b row col = p \<and> at b (row + 1) col = p \<and> at b (row + 2) col = p \<and> at b (row + 3) col = p)"
    by (rule first_hit_nested)
       (simp add: set_py_range ROWS_def COLS_def vertical_at_def cw)
  have d: "first_hit (\<lambda>row. first_hit (down_right_at b p row) (py_range (COLS - 3))) (py_range (ROWS - 3))
        = Inr (\<exists>row \<in> set (py_range (ROWS - 3)). \<exists>col \<in> set (py_range (COLS - 3)).
        at b row col = p \<and> at b (row + 1) (col + 1) = p \<and> at b (row + 2) (col + 2) = p \<and>
        at b (row + 3) (col + 3) = p)"
    by (rule first_hit_nested)
       (simp add: set_py_range ROWS_def COLS_def down_right_at_def cw)
  have u: "first_hit (\<lambda>row. first_hit (up_right_at b p row) (py_range (COLS - 3))) (py_range2 3 ROWS)
        = Inr (\<exists>row \<in> set (py_range2 3 ROWS). \<exists>col \<in> set (py_range (COLS - 3)).
        at b row col = p \<and> at b (row - 1) (col + 1) = p \<and> at b (row - 2) (col + 2) = p \<and>
        at b (row - 3) (col + 3) = p)"
    by (rule first_hit_nested)
       (simp add: set_py_range set_py_range2 ROWS_def COLS_def up_right_at_def cw)
  show ?thesis
    unfolding check_winner_def h v d u win_lines_def
    by (simp add: set_py_range set_py_range2 ROWS_def COLS_def)
qed

lemma ball_0_3: "(\<forall>k \<in> {0..3::int}. P k) \<longleftrightarrow> P 0 \<and> P 1 \<and> P 2 \<and> P 3"
proof -
  have "{0..3::int} = {0, 1, 2, 3}" by auto
  then show ?thesis by simp
qed

lemma win_lines_has_four: "win_lines b p \<longleftrightarrow> has_four b p"
  unfolding win_lines_def has_four_def four_in_line_def ball_0_3 on_board_def ROWS_def COLS_def
  apply (rule iffI)
   apply (elim disjE bexE conjE)
  subgoal for row col by (rule bexI[of _ row], rule bexI[of _ col]) auto
  subgoal for col row by (rule bexI[of _ row], rule bexI[of _ col]) auto
  subgoal for row col by (rule bexI[of _ row], rule bexI[of _ col]) auto
  subgoal for row col by (rule bexI[of _ "row - 3"], rule bexI[of _ "col + 3"]) (auto simp: algebra_simps)
  apply (elim disjE bexE conjE)
  subgoal for r c by (rule disjI1, rule bexI[of _ r], rule bexI[of _ c]) auto
  subgoal for r c by (rule disjI2, rule disjI1, rule bexI[of _ c], rule bexI[of _ r]) auto
  subgoal for r c by (rule disjI2, rule disjI2, rule disjI1, rule bexI[of _ r], rule bexI[of _ c]) auto
  subgoal for r c by (rule disjI2, rule disjI2, rule disjI2, rule bexI[of _ "r + 3"], rule bexI[of _ "c - 3"]) (auto simp: algebra_simps)
  done


text \<open>
  C1. On every well-formed board and for every player string, \<open>check_winner\<close>
  raises nothing and returns True exactly when the player holds four
  neighbouring cells of the board in a row, in a column, or along one of the
  two diagonal directions.
\<close>

theorem check_winner_iff_four_in_line:
  assumes "wf_board b"
  shows "check_winner b p = Inr (has_four b p)"
proof -
  have "check_winner b p = Inr (win_lines b p)"
    using assms by (rule check_winner_wf)
  moreover have "win_lines b p \<longleftrightarrow> has_four b p"
    by (rule win_lines_has_four)
  ultimately show ?thesis by simp
qed

theorem check_winner_iff_four_in_line_witness:
  "wf_board board_diag \<and>
   check_winner board_diag ''R'' = Inr True \<and> has_four board_diag ''R'' \<and>
   check_winner board_diag ''Y'' = Inr False \<and> \<not> has_four board_diag ''Y''"
proof -
  have wf: "wf_board board_diag" by (simp add: board_diag_def wf_board_def)
  have r: "check_winner board_diag ''R'' = Inr True" by code_simp
  have y: "check_winner board_diag ''Y'' = Inr False" by code_simp
  show ?thesis
    using wf r y check_winner_iff_four_in_line [OF wf, of "''R''"]
      check_winner_iff_four_in_line [OF wf, of "''Y''"] by simp
qed

subsection \<open>get_valid_moves and make_move on a well-formed board\<close>

lemma valid_moves_loop_wf:
  assumes "wf_board b" "\<forall>c \<in> set cols. 0 \<le> c \<and> c < 7"
  shows "valid_moves_loop b cols acc = Inr (acc @ filter (\<lambda>c. at b 0 c = ''.'') cols)"
  using assms(2)
proof (induction cols arbitrary: acc)
  case Nil
  then show ?case by simp
next
  case (Cons c cols)
  then show ?case using assms(1) by (simp add: cell_wf)
qed

lemma get_valid_moves_wf:
  "wf_board b \<Longrightarrow> get_valid_moves b = Inr (filter (\<lambda>c. at b 0 c = ''.'') [0..6])"
  by (simp add: get_valid_moves_def valid_moves_loop_wf COLS_def py_range_def)

lemma set_cell_wf:
  assumes "wf_board b" "0 \<le> r" "r < 6" "0 \<le> c" "c < 7"
  shows "set_cell b r c v = Inr (put b r c v)"
proof -
  have "nat r < length b" using assms by (simp add: wf_board_def)
  then have "length (b ! nat r) = 7" using assms(1) by (simp add: wf_board_def)
  then show ?thesis using assms by (simp add: set_cell_def py_index_def py_setitem_def put_def wf_board_def)
qed

lemma make_move_unrolled:
  assumes "wf_board b" "0 \<le> c" "c < 7"
  shows "make_move b c p =
     Inr (if at b 5 c = ''.'' then put b 5 c p
      else if at b 4 c = ''.'' then put b 4 c p
      else if at b 3 c = ''.'' then put b 3 c p
      else if at b 2 c = ''.'' then put b 2 c p
      else if at b 1 c = ''.'' then put b 1 c p
      else if at b 0 c = ''.'' then put b 0 c p
      else b)"
  using assms by (simp add: make_move_def ROWS_def range_simps cell_wf set_cell_wf)

lemma int_0_5_cases: "0 \<le> (r::int) \<Longrightarrow> r < 6 \<Longrightarrow> r = 0 \<or> r = 1 \<or> r = 2 \<or> r = 3 \<or> r = 4 \<or> r = 5"
  by arith

lemma column_full_iff: "column_full b c \<longleftrightarrow>
  at b 0 c \<noteq> ''.'' \<and> at b 1 c \<noteq> ''.'' \<and> at b 2 c \<noteq> ''.'' \<and> at b 3 c \<noteq> ''.'' \<and> at b 4 c \<noteq> ''.'' \<and> at b 5 c \<noteq> ''.''"
proof -
  have "{0..ROWS - 1} = {0,1,2,3,4,5}" by (auto simp: ROWS_def)
  then show ?thesis by (simp add: column_full_def)
qed

lemma make_move_full:
  "wf_board b \<Longrightarrow> 0 \<le> c \<Longrightarrow> c < 7 \<Longrightarrow> column_full b c \<Longrightarrow> make_move b c p = Inr b"
  by (simp add: make_move_unrolled column_full_iff)

lemma lowest_emptyD:
  assumes "lowest_empty b c r"
  shows "0 \<le> r" "r < 6" "at b r c = ''.''"
  using assms by (simp_all add: lowest_empty_def ROWS_def)

lemma lowest_empty_above:
  assumes "lowest_empty b c r" "r < r'" "r' < 6"
  shows "at b r' c \<noteq> ''.''"
proof -
  have "\<forall>x \<in> {r + 1..ROWS - 1}. at b x c \<noteq> ''.''"
    using assms(1) unfolding lowest_empty_def by blast
  moreover have "r' \<in> {r + 1..ROWS - 1}" using assms(2,3) by (simp add: ROWS_def)
  ultimately show ?thesis by blast
qed

lemma lowest_empty_unique:
  assumes "lowest_empty b c r" "lowest_empty b c r'"
  shows "r = r'"
proof (rule ccontr)
  assume "r \<noteq> r'"
  then consider "r < r'" | "r' < r" by arith
  then show False
  proof cases
    case 1
    then show False
      using lowest_empty_above [OF assms(1) 1] lowest_emptyD [OF assms(2)] by blast
  next
    case 2
    then show False
      using lowest_empty_above [OF assms(2) 2] lowest_emptyD [OF assms(1)] by blast
  qed
qed

lemma lowest_emptyI:
  assumes "0 \<le> r" "r < 6" "at b r c = ''.''"
    and "\<And>r'. r < r' \<Longrightarrow> r' < 6 \<Longrightarrow> at b r' c \<noteq> ''.''"
  shows "lowest_empty b c r"
  unfolding lowest_empty_def ROWS_def using assms by auto

lemma lowest_empty_exists:
  assumes "\<not> column_full b c"
  shows "\<exists>r. lowest_empty b c r"
proof -
  consider "at b 5 c = ''.''"
    | "at b 5 c \<noteq> ''.''" "at b 4 c = ''.''"
    | "at b 5 c \<noteq> ''.''" "at b 4 c \<noteq> ''.''" "at b 3 c = ''.''"
    | "at b 5 c \<noteq> ''.''" "at b 4 c \<noteq> ''.''" "at b 3 c \<noteq> ''.''" "at b 2 c = ''.''"
    | "at b 5 c \<noteq> ''.''" "at b 4 c \<noteq> ''.''" "at b 3 c \<noteq> ''.''" "at b 2 c \<noteq> ''.''"
      "at b 1 c = ''.''"
    | "at b 5 c \<noteq> ''.''" "at b 4 c \<noteq> ''.''" "at b 3 c \<noteq> ''.''" "at b 2 c \<noteq> ''.''"
      "at b 1 c \<noteq> ''.''" "at b 0 c = ''.''"
    using assms unfolding column_full_iff by blast
  then show ?thesis
  proof cases
    case 1
    have "lowest_empty b c 5" by (rule lowest_emptyI) (use 1 in auto)
    then show ?thesis ..
  next
    case 2
    have "lowest_empty b c 4"
    proof (rule lowest_emptyI)
      fix r' :: int assume "4 < r'" "r' < 6"
      then have "r' = 5" by arith
      then show "at b r' c \<noteq> ''.''" using 2 by simp
    qed (use 2 in auto)
    then show ?thesis ..
  next
    case 3
    have "lowest_empty b c 3"
    proof (rule lowest_emptyI)
      fix r' :: int assume "3 < r'" "r' < 6"
      then have "r' = 4 \<or> r' = 5" by arith
      then show "at b r' c \<noteq> ''.''" using 3 by auto
    qed (use 3 in auto)
    then show ?thesis ..
  next
    case 4
    have "lowest_empty b c 2"
    proof (rule lowest_emptyI)
      fix r' :: int assume "2 < r'" "r' < 6"
      then have "r' = 3 \<or> r' = 4 \<or> r' = 5" by arith
      then show "at b r' c \<noteq> ''.''" using 4 by auto
    qed (use 4 in auto)
    then show ?thesis ..
  next
    case 5
    have "lowest_empty b c 1"
    proof (rule lowest_emptyI)
      fix r' :: int assume "1 < r'" "r' < 6"
      then have "r' = 2 \<or> r' = 3 \<or> r' = 4 \<or> r' = 5" by arith
      then show "at b r' c \<noteq> ''.''" using 5 by auto
    qed (use 5 in auto)
    then show ?thesis ..
  next
    case 6
    have "lowest_empty b c 0"
    proof (rule lowest_emptyI)
      fix r' :: int assume "0 < r'" "r' < 6"
      then have "r' = 1 \<or> r' = 2 \<or> r' = 3 \<or> r' = 4 \<or> r' = 5" by arith
      then show "at b r' c \<noteq> ''.''" using 6 by auto
    qed (use 6 in auto)
    then show ?thesis ..
  qed
qed

lemma make_move_lowest:
  assumes wf: "wf_board b" and c: "0 \<le> c" "c < 7" and le: "lowest_empty b c r"
  shows "make_move b c p = Inr (put b r c p)"
proof -
  have r: "0 \<le> r" "r < 6" and e: "at b r c = ''.''"
    using lowest_emptyD [OF le] by simp_all
  have above: "\<And>r'. r < r' \<Longrightarrow> r' < 6 \<Longrightarrow> at b r' c \<noteq> ''.''"
    using lowest_empty_above [OF le] by simp
  note u = make_move_unrolled [OF wf c]
  from int_0_5_cases [OF r] consider "r = 0" | "r = 1" | "r = 2" | "r = 3" | "r = 4" | "r = 5"
    by blast
  then show ?thesis
  proof cases
    case 1 then show ?thesis
      using e above[of 5] above[of 4] above[of 3] above[of 2] above[of 1] by (simp add: u)
  next
    case 2 then show ?thesis
      using e above[of 5] above[of 4] above[of 3] above[of 2] by (simp add: u)
  next
    case 3 then show ?thesis
      using e above[of 5] above[of 4] above[of 3] by (simp add: u)
  next
    case 4 then show ?thesis
      using e above[of 5] above[of 4] by (simp add: u)
  next
    case 5 then show ?thesis
      using e above[of 5] by (simp add: u)
  next
    case 6 then show ?thesis
      using e by (simp add: u)
  qed
qed

lemma wf_board_put:
  assumes "wf_board b"
  shows "wf_board (put b r c v)"
proof -
  have len: "length (put b r c v) = 6" using assms by (simp add: wf_board_def put_def)
  have sub: "set (put b r c v) \<subseteq> insert ((b ! nat r)[nat c := v]) (set b)"
    unfolding put_def by (rule set_update_subset_insert)
  have "length x = 7" if "x \<in> set (put b r c v)" for x
  proof -
    from that sub have "x = (b ! nat r)[nat c := v] \<or> x \<in> set b" by blast
    then show ?thesis
    proof
      assume x: "x = (b ! nat r)[nat c := v]"
      show ?thesis
      proof (cases "nat r < length b")
        case True
        then have "b ! nat r \<in> set b" by simp
        then have "length (b ! nat r) = 7" using assms unfolding wf_board_def by blast
        then show ?thesis using x by simp
      next
        case False
        then have "put b r c v = b" by (simp add: put_def list_update_beyond)
        then have "x \<in> set b" using that by simp
        then show ?thesis using assms unfolding wf_board_def by blast
      qed
    next
      assume "x \<in> set b"
      then show ?thesis using assms unfolding wf_board_def by blast
    qed
  qed
  then show ?thesis using len unfolding wf_board_def by blast
qed

lemma at_put:
  assumes "wf_board b" "0 \<le> r" "r < 6" "0 \<le> c" "c < 7" "0 \<le> r'" "0 \<le> c'" "r' < 6" "c' < 7"
  shows "at (put b r c v) r' c' = (if r' = r \<and> c' = c then v else at b r' c')"
proof -
  have "nat r < length b" "nat r' < length b" using assms by (simp_all add: wf_board_def)
  moreover from this have "length (b ! nat r) = 7" using assms(1) by (simp add: wf_board_def)
  ultimately show ?thesis using assms(2-)
    by (auto simp: at_def put_def nth_list_update nat_eq_iff)
qed

subsection \<open>Errors of make_move, and full columns\<close>

lemma py_index_error: "py_index xs i = Inl e \<Longrightarrow> e = IndexError"
  by (auto simp: py_index_def split: if_splits)

lemma py_setitem_error: "py_setitem xs i v = Inl e \<Longrightarrow> e = IndexError"
  by (auto simp: py_setitem_def split: if_splits)

lemma cell_error: "cell b r c = Inl e \<Longrightarrow> e = IndexError"
  by (auto simp: cell_def split: sum.splits dest: py_index_error)

lemma set_cell_error: "set_cell b r c v = Inl e \<Longrightarrow> e = IndexError"
  by (auto simp: set_cell_def split: sum.splits dest: py_index_error py_setitem_error)

lemma make_move_loop_error: "make_move_loop nb c p rows = Inl e \<Longrightarrow> e = IndexError"
  by (induction rows) (auto split: sum.splits if_splits dest: cell_error set_cell_error)

lemma make_move_error: "make_move b c p = Inl e \<Longrightarrow> e = IndexError"
  unfolding make_move_def by (rule make_move_loop_error)

lemma cell_out_of_range:
  assumes "wf_board b" "0 \<le> r" "r < 6" "7 \<le> c \<or> c < - 7"
  shows "cell b r c = Inl IndexError"
proof -
  have "nat r < length b" using assms by (simp add: wf_board_def)
  then have "length (b ! nat r) = 7" using assms(1) by (simp add: wf_board_def)
  then show ?thesis using assms by (auto simp: cell_def py_index_def wf_board_def)
qed

lemma make_move_out_of_range:
  assumes "wf_board b" "7 \<le> c \<or> c < - 7"
  shows "make_move b c p = Inl IndexError"
  using assms by (simp add: make_move_def ROWS_def range_simps cell_out_of_range)

lemma make_move_in_range:
  assumes "wf_board b" "0 \<le> c" "c < 7"
  shows "\<exists>b'. make_move b c p = Inr b'"
  using make_move_unrolled [OF assms] by simp

lemma gravity_top_full:
  assumes "gravity b" "0 \<le> c" "c < 7" "at b 0 c \<noteq> ''.''"
  shows "column_full b c"
proof -
  have g: "\<And>r. 0 \<le> r \<Longrightarrow> r \<le> 4 \<Longrightarrow> at b r c \<noteq> ''.'' \<Longrightarrow> at b (r + 1) c \<noteq> ''.''"
    using assms(1,2,3) unfolding gravity_def ROWS_def COLS_def by simp
  have 1: "at b 1 c \<noteq> ''.''" using g[of 0] assms(4) by simp
  have 2: "at b 2 c \<noteq> ''.''" using g[of 1] 1 by simp
  have 3: "at b 3 c \<noteq> ''.''" using g[of 2] 2 by simp
  have 4: "at b 4 c \<noteq> ''.''" using g[of 3] 3 by simp
  have 5: "at b 5 c \<noteq> ''.''" using g[of 4] 4 by simp
  show ?thesis unfolding column_full_iff using assms(4) 1 2 3 4 5 by simp
qed

text \<open>
  C10. On a well-formed board, for a column \<open>c\<close> of 0..6 whose top cell is not
  empty and that is full (which a non-empty top cell means on every board that
  satisfies the gravity invariant), \<open>make_move\<close> raises nothing and returns a
  board equal to its input: no cell is changed and no piece is placed.
\<close>
theorem make_move_full_column_unchanged:
  assumes "wf_board b" "0 \<le> c" "c < COLS" "at b 0 c \<noteq> ''.''" "column_full b c \<or> gravity b"
  shows "make_move b c p = Inr b"
proof -
  have c: "c < 7" using assms(3) by (simp add: COLS_def)
  have "column_full b c" using assms(5) gravity_top_full [OF _ assms(2) c assms(4)] by blast
  then show ?thesis using make_move_full [OF assms(1,2) c] by simp
qed

theorem make_move_full_column_unchanged_witness:
  "wf_board board_col0_full \<and> (0::int) \<le> 0 \<and> 0 < COLS \<and> at board_col0_full 0 0 \<noteq> ''.'' \<and>
   column_full board_col0_full 0 \<and> gravity board_col0_full \<and>
   make_move board_col0_full 0 ''R'' = Inr board_col0_full"
proof -
  have wf: "wf_board board_col0_full" by (simp add: board_col0_full_def wf_board_def)
  have c: "(0::int) < COLS" by (simp add: COLS_def)
  have top: "at board_col0_full 0 0 \<noteq> ''.''" by (simp add: at_def board_col0_full_def)
  have full: "column_full board_col0_full 0"
    by (simp add: column_full_iff at_def board_col0_full_def)
  have g: "gravity board_col0_full" by code_simp
  have "column_full board_col0_full 0 \<or> gravity board_col0_full" using full ..
  from make_move_full_column_unchanged [OF wf _ c top this, of "''R''"] wf c top full g
  show ?thesis by simp
qed

text \<open>
  C2 as stated fails. Column 0 of \<open>board_col0_full\<close> is full, and \<open>make_move\<close>
  returns the board as it is, without any error. Column \<open>-1\<close> is out of 0..6, and
  the move succeeds: Python counts a negative index from the end, so the piece
  lands in column 6. Column 7 fails, with IndexError.
\<close>

theorem make_move_full_column_counterexample:
  "cell board_col0_full 0 0 = Inr ''Y'' \<and> cell board_col0_full 1 0 = Inr ''R'' \<and>
   cell board_col0_full 2 0 = Inr ''Y'' \<and> cell board_col0_full 3 0 = Inr ''R'' \<and>
   cell board_col0_full 4 0 = Inr ''Y'' \<and> cell board_col0_full 5 0 = Inr ''R'' \<and>
   make_move board_col0_full 0 ''R'' = Inr board_col0_full \<and>
   make_move empty_board (- 1) ''R'' = Inr (put empty_board 5 6 ''R'') \<and>
   make_move empty_board 7 ''R'' = Inl IndexError"
  by code_simp

text \<open>
  C2, amended. \<open>make_move\<close> never fails with InvalidMoveError. On a well-formed
  board, a column of 0..6 always gives a board, and a full column of 0..6 gives
  the input board unchanged; a column index of 7 or more fails with IndexError.
\<close>

theorem make_move_errors:
  assumes "wf_board b"
  shows "make_move b c p \<noteq> Inl InvalidMoveError \<and>
         (0 \<le> c \<and> c < COLS \<longrightarrow> (\<exists>b'. make_move b c p = Inr b')) \<and>
         (0 \<le> c \<and> c < COLS \<and> column_full b c \<longrightarrow> make_move b c p = Inr b) \<and>
         (COLS \<le> c \<longrightarrow> make_move b c p = Inl IndexError)"
proof -
  have "make_move b c p \<noteq> Inl InvalidMoveError"
    using make_move_error [of b c p InvalidMoveError] by auto
  moreover have "\<exists>b'. make_move b c p = Inr b'" if "0 \<le> c \<and> c < COLS"
    using that make_move_in_range [OF assms, of c p] by (simp add: COLS_def)
  moreover have "make_move b c p = Inr b" if "0 \<le> c \<and> c < COLS \<and> column_full b c"
    using that make_move_full [OF assms, of c p] by (simp add: COLS_def)
  moreover have "make_move b c p = Inl IndexError" if "COLS \<le> c"
    using that make_move_out_of_range [OF assms, of c p] by (simp add: COLS_def)
  ultimately show ?thesis by blast
qed

theorem make_move_errors_witness:
  "wf_board board_col0_full \<and>
   make_move board_col0_full 0 ''R'' \<noteq> Inl InvalidMoveError \<and>
   make_move board_col0_full 0 ''R'' = Inr board_col0_full \<and>
   make_move board_col0_full 7 ''R'' = Inl IndexError"
proof -
  have wf: "wf_board board_col0_full" by (simp add: board_col0_full_def wf_board_def)
  have full: "column_full board_col0_full 0"
    by (simp add: column_full_iff at_def board_col0_full_def)
  show ?thesis
    using wf full make_move_errors [OF wf, of 0 "''R''"] make_move_errors [OF wf, of 7 "''R''"]
    by (simp add: COLS_def)
qed

subsection \<open>Reachable boards\<close>

lemma reachable_replay: "reachable b \<Longrightarrow> replay b ms = Some b' \<Longrightarrow> reachable b'"
proof (induction ms arbitrary: b)
  case Nil
  then show ?case by simp
next
  case (Cons m ms)
  obtain c p where m: "m = (c, p)" by (cases m)
  from Cons.prems(2) obtain vs b1 where
    v: "get_valid_moves b = Inr vs" "c \<in> set vs" "p = ''R'' \<or> p = ''Y''"
    and mm: "make_move b c p = Inr b1" and r: "replay b1 ms = Some b'"
    unfolding m by (auto split: sum.splits if_splits)
  have "reachable b1" using reachable.move [OF Cons.prems(1) v mm] .
  then show ?case using Cons.IH r by blast
qed

lemma replay_diag: "replay empty_board moves_diag = Some board_diag"
  by code_simp

lemma reachable_board_diag: "reachable board_diag"
  using reachable_replay [OF reachable.start replay_diag] .

lemma wf_empty_board: "wf_board empty_board"
  by (simp add: wf_board_def empty_board_def ROWS_def COLS_def)

lemma at_empty_board: "0 \<le> r \<Longrightarrow> r < 6 \<Longrightarrow> 0 \<le> c \<Longrightarrow> c < 7 \<Longrightarrow> at empty_board r c = ''.''"
  by (simp add: at_def empty_board_def ROWS_def COLS_def)

lemma gravity_empty_board: "gravity empty_board"
  unfolding gravity_def by (simp add: at_empty_board ROWS_def COLS_def)

lemma valid_move_range:
  assumes "wf_board b" "get_valid_moves b = Inr ms" "c \<in> set ms"
  shows "0 \<le> c" "c < 7" "at b 0 c = ''.''"
  using assms by (auto simp: get_valid_moves_wf)

lemma valid_move_lowest:
  assumes "wf_board b" "get_valid_moves b = Inr ms" "c \<in> set ms"
  shows "\<exists>r. lowest_empty b c r"
proof -
  have "at b 0 c = ''.''" using valid_move_range [OF assms] by simp
  then have "\<not> column_full b c" by (simp add: column_full_iff)
  then show ?thesis by (rule lowest_empty_exists)
qed

lemma gravity_put:
  assumes wf: "wf_board b" and g: "gravity b" and c: "0 \<le> c" "c < 7"
    and le: "lowest_empty b c r" and p: "p \<noteq> ''.''"
  shows "gravity (put b r c p)"
  unfolding gravity_def
proof (intro ballI impI)
  fix c' r' assume c': "c' \<in> {0..COLS - 1}" and r': "r' \<in> {0..ROWS - 2}"
    and ne: "at (put b r c p) r' c' \<noteq> ''.''"
  have rc: "0 \<le> c'" "c' < 7" "0 \<le> r'" "r' < 5" using c' r' by (simp_all add: ROWS_def COLS_def)
  have r: "0 \<le> r" "r < 6" using lowest_emptyD [OF le] by simp_all
  have a1: "at (put b r c p) r' c' = (if r' = r \<and> c' = c then p else at b r' c')"
    using at_put [OF wf r c, of r' c'] rc by simp
  have a2: "at (put b r c p) (r' + 1) c' = (if r' + 1 = r \<and> c' = c then p else at b (r' + 1) c')"
    using at_put [OF wf r c, of "r' + 1" c'] rc by simp
  have gb: "at b r' c' \<noteq> ''.'' \<Longrightarrow> at b (r' + 1) c' \<noteq> ''.''"
    using g c' r' unfolding gravity_def by blast
  show "at (put b r c p) (r' + 1) c' \<noteq> ''.''"
  proof (cases "c' = c")
    case False
    then show ?thesis using a1 a2 ne gb by simp
  next
    case True
    show ?thesis
    proof (cases "r' + 1 = r")
      case True
      then show ?thesis using a2 p \<open>c' = c\<close> by simp
    next
      case False
      show ?thesis
      proof (cases "r' = r")
        case True
        have "at b (r + 1) c \<noteq> ''.''"
          using lowest_empty_above [OF le, of "r + 1"] rc True by simp
        then show ?thesis using a2 True \<open>c' = c\<close> by simp
      next
        case False
        then show ?thesis using a1 a2 ne gb \<open>r' + 1 \<noteq> r\<close> by simp
      qed
    qed
  qed
qed

lemma reachable_invariant: "reachable b \<Longrightarrow> wf_board b \<and> gravity b"
proof (induction rule: reachable.induct)
  case start
  show ?case using wf_empty_board gravity_empty_board by simp
next
  case (move b ms c p b')
  then have wf: "wf_board b" and g: "gravity b" by simp_all
  note vr = valid_move_range [OF wf move.hyps(2,3)]
  obtain r where le: "lowest_empty b c r" using valid_move_lowest [OF wf move.hyps(2,3)] ..
  have "make_move b c p = Inr (put b r c p)" using make_move_lowest [OF wf vr(1,2) le] .
  then have b': "b' = put b r c p" using move.hyps(5) by simp
  have "p \<noteq> ''.''" using move.hyps(4) by auto
  then show ?case
    unfolding b' using wf_board_put [OF wf] gravity_put [OF wf g vr(1,2) le] by simp
qed


subsection \<open>make_move on the heap\<close>

lemma copy_rows_distinct:
  assumes "distinct as" "set as \<inter> fst ` set memo = {}" "\<forall>a \<in> set as. a < length rs"
  shows "copy_rows rs memo as = (rs @ map ((!) rs) as, [length rs..<length rs + length as])"
  using assms
proof (induction as arbitrary: rs memo rule: list.induct)
  case Nil
  then show ?case by simp
next
  case (Cons a as)
  have none: "map_of memo a = None" using Cons.prems(2) by (simp add: map_of_eq_None_iff)
  have d: "distinct as" and na: "a \<notin> set as" using Cons.prems(1) by simp_all
  have m: "set as \<inter> fst ` set ((a, length rs) # memo) = {}" using Cons.prems(2) na by auto
  have r: "\<forall>x \<in> set as. x < length (rs @ [rs ! a])" using Cons.prems(3) by auto
  have same: "map ((!) (rs @ [rs ! a])) as = map ((!) rs) as"
    using Cons.prems(3) by (simp add: nth_append)
  have rec: "copy_rows (rs @ [rs ! a]) ((a, length rs) # memo) as =
      ((rs @ [rs ! a]) @ map ((!) rs) as, [Suc (length rs)..<Suc (length rs) + length as])"
    using Cons.IH [OF d m r] same by simp
  have "[length rs..<length rs + length (a # as)] =
      length rs # [Suc (length rs)..<length rs + length (a # as)]"
    by (rule upt_conv_Cons) simp
  then have up: "[length rs..<length rs + length (a # as)] =
      length rs # [Suc (length rs)..<Suc (length rs) + length as]" by simp
  show ?case unfolding up copy_rows.simps none rec by simp
qed

lemma py_index_map: "py_index (map f xs) i = (case py_index xs i of Inl e \<Rightarrow> Inl e | Inr x \<Rightarrow> Inr (f x))"
  by (auto simp: py_index_def)

lemma map_update_distinct:
  assumes "distinct refs" "j < length refs" "\<forall>x \<in> set refs. x < length rs"
  shows "map ((!) (rs[refs ! j := r'])) refs = (map ((!) rs) refs)[j := r']"
proof (rule nth_equalityI)
  show "length (map ((!) (rs[refs ! j := r'])) refs) = length ((map ((!) rs) refs)[j := r'])"
    by simp
  fix i assume "i < length (map ((!) (rs[refs ! j := r'])) refs)"
  then have i: "i < length refs" by simp
  show "map ((!) (rs[refs ! j := r'])) refs ! i = (map ((!) rs) refs)[j := r'] ! i"
  proof (cases "i = j")
    case True
    then show ?thesis using assms i by simp
  next
    case False
    then have "refs ! i \<noteq> refs ! j" using assms(1,2) i by (simp add: nth_eq_iff_index_eq)
    then show ?thesis using False i assms by simp
  qed
qed


lemma cell_board_at:
  "cell (board_at h a) row col =
     (case py_index (list_objs h ! a) row of
        Inl e \<Rightarrow> Inl e
      | Inr ra \<Rightarrow> py_index (row_objs h ! ra) col)"
  by (simp add: cell_def board_at_def py_index_map split: sum.splits)

lemma py_index_position:
  assumes "py_index refs row = Inr ra"
  shows "\<exists>j < length refs. refs ! j = ra \<and>
           (\<forall>xs y. length xs = length refs \<longrightarrow> py_setitem xs row y = Inr (xs[j := y]))"
proof (cases "0 \<le> row")
  case True
  then have "nat row < length refs \<and> refs ! nat row = ra"
    using assms by (auto simp: py_index_def split: if_splits)
  moreover have "\<forall>xs y. length xs = length refs \<longrightarrow> py_setitem xs row y = Inr (xs[nat row := y])"
    using True calculation by (auto simp: py_setitem_def)
  ultimately show ?thesis by blast
next
  case False
  let ?j = "nat (int (length refs) + row)"
  have "?j < length refs \<and> refs ! ?j = ra \<and> - int (length refs) \<le> row"
    using assms False by (auto simp: py_index_def split: if_splits)
  moreover have "\<forall>xs y. length xs = length refs \<longrightarrow> py_setitem xs row y = Inr (xs[?j := y])"
    using False calculation by (auto simp: py_setitem_def)
  ultimately show ?thesis by blast
qed

lemma set_cell_board_at:
  assumes hb: "heap_board h a" and ra: "py_index (list_objs h ! a) row = Inr ra"
    and w: "py_setitem (row_objs h ! ra) col v = Inr r'"
  shows "set_cell (board_at h a) row col v =
           Inr (board_at (h\<lparr>row_objs := (row_objs h)[ra := r']\<rparr>) a)"
proof -
  let ?refs = "list_objs h ! a"
  from py_index_position [OF ra] obtain j where j: "j < length ?refs" "?refs ! j = ra"
    and st: "\<And>(xs :: string list list) y.
      length xs = length ?refs \<Longrightarrow> py_setitem xs row y = Inr (xs[j := y])"
    by blast
  have d: "distinct ?refs" and r: "\<forall>x \<in> set ?refs. x < length (row_objs h)"
    using hb by (simp_all add: heap_board_def)
  have 1: "py_index (board_at h a) row = Inr (row_objs h ! ra)"
    by (simp add: board_at_def py_index_map ra)
  have 2: "py_setitem (board_at h a) row r' = Inr ((board_at h a)[j := r'])"
    by (rule st) (simp add: board_at_def)
  have 3: "board_at (h\<lparr>row_objs := (row_objs h)[ra := r']\<rparr>) a = (board_at h a)[j := r']"
    using map_update_distinct [OF d j(1) r, of r'] j(2) by (simp add: board_at_def)
  show ?thesis by (simp add: set_cell_def 1 w 2 3)
qed

lemma make_move_loop_h_refines:
  assumes hb: "heap_board h a"
  shows "case make_move_loop (board_at h a) col p rws of
           Inl e \<Rightarrow> make_move_loop_h h a col p rws = Inl e
         | Inr b' \<Rightarrow>
             (\<exists>h'. make_move_loop_h h a col p rws = Inr h' \<and> board_at h' a = b' \<and>
                list_objs h' = list_objs h \<and> length (row_objs h') = length (row_objs h) \<and>
                (\<forall>x. x \<notin> set (list_objs h ! a) \<longrightarrow> row_objs h' ! x = row_objs h ! x))"
proof (induction rws)
  case Nil
  show ?case by simp
next
  case (Cons row rws)
  show ?case
  proof (cases "py_index (list_objs h ! a) row")
    case (Inl e)
    then show ?thesis by (simp add: cell_board_at)
  next
    case (Inr ra)
    from py_index_position [OF Inr] have mem: "ra \<in> set (list_objs h ! a)"
      by (metis nth_mem)
    show ?thesis
    proof (cases "py_index (row_objs h ! ra) col")
      case (Inl e)
      then show ?thesis using Inr by (simp add: cell_board_at)
    next
      case v: (Inr v)
      show ?thesis
      proof (cases "v = ''.''")
        case False
        then show ?thesis using Inr v Cons.IH by (simp add: cell_board_at split: sum.splits)
      next
        case True
        show ?thesis
        proof (cases "py_setitem (row_objs h ! ra) col p")
          case (Inl e)
          have "set_cell (board_at h a) row col p = Inl e"
            by (simp add: set_cell_def board_at_def py_index_map Inr Inl)
          then show ?thesis using Inr v True Inl by (simp add: cell_board_at)
        next
          case w: (Inr r')
          note sc = set_cell_board_at [OF hb Inr w]
          have "\<forall>x. x \<notin> set (list_objs h ! a) \<longrightarrow> (row_objs h)[ra := r'] ! x = row_objs h ! x"
            using mem by (metis nth_list_update_neq)
          then show ?thesis using Inr v True w sc by (simp add: cell_board_at)
        qed
      qed
    qed
  qed
qed

lemma deepcopy_fresh:
  assumes hb: "heap_board h a"
  shows "deepcopy h a =
     (\<lparr>row_objs = row_objs h @ board_at h a,
       list_objs = list_objs h @
         [[length (row_objs h)..<length (row_objs h) + length (list_objs h ! a)]]\<rparr>,
      length (list_objs h))"
proof -
  have "copy_rows (row_objs h) [] (list_objs h ! a) =
      (row_objs h @ map ((!) (row_objs h)) (list_objs h ! a),
       [length (row_objs h)..<length (row_objs h) + length (list_objs h ! a)])"
    by (rule copy_rows_distinct) (use hb in \<open>simp_all add: heap_board_def\<close>)
  then show ?thesis by (simp add: deepcopy_def board_at_def)
qed

lemma map_nth_append_upt: "map ((!) (xs @ ys)) [length xs..<length xs + length ys] = ys"
  by (rule nth_equalityI) (simp_all add: nth_append)

lemma make_move_h_refines:
  assumes hb: "heap_board h a"
  shows "case make_move (board_at h a) col p of
           Inl e \<Rightarrow> make_move_h h a col p = Inl e
         | Inr b' \<Rightarrow>
             (\<exists>h'. make_move_h h a col p = Inr (h', length (list_objs h)) \<and>
                heap_board h' (length (list_objs h)) \<and> board_at h' (length (list_objs h)) = b' \<and>
                (\<forall>x < length (list_objs h). list_objs h' ! x = list_objs h ! x) \<and>
                (\<forall>x < length (row_objs h). row_objs h' ! x = row_objs h ! x) \<and>
                (\<forall>x \<in> set (list_objs h' ! length (list_objs h)). length (row_objs h) \<le> x))"
proof -
  let ?n = "length (row_objs h)"
  let ?nb = "length (list_objs h)"
  let ?new = "[?n..<?n + length (list_objs h ! a)]"
  let ?h1 = "\<lparr>row_objs = row_objs h @ board_at h a, list_objs = list_objs h @ [?new]\<rparr>"
  have dc: "deepcopy h a = (?h1, ?nb)" by (rule deepcopy_fresh [OF hb])
  have len: "length (board_at h a) = length (list_objs h ! a)" by (simp add: board_at_def)
  have nb: "list_objs ?h1 ! ?nb = ?new" by simp
  have hb1: "heap_board ?h1 ?nb" by (simp add: heap_board_def board_at_def)
  have "board_at ?h1 ?nb = map ((!) (row_objs ?h1)) (list_objs ?h1 ! ?nb)"
    by (simp only: board_at_def)
  also have "\<dots> = map ((!) (row_objs h @ board_at h a)) [?n..<?n + length (board_at h a)]"
    by (simp add: len)
  also have "\<dots> = board_at h a" by (rule map_nth_append_upt)
  finally have b1: "board_at ?h1 ?nb = board_at h a" .
  note lr = make_move_loop_h_refines [OF hb1, of col p "rev (py_range ROWS)", unfolded b1]
  show ?thesis
  proof (cases "make_move (board_at h a) col p")
    case (Inl e)
    then show ?thesis using lr by (simp add: make_move_h_def make_move_def dc)
  next
    case (Inr b')
    then obtain h' where h': "make_move_loop_h ?h1 ?nb col p (rev (py_range ROWS)) = Inr h'"
      "board_at h' ?nb = b'" "list_objs h' = list_objs ?h1"
      "length (row_objs h') = length (row_objs ?h1)"
      "\<forall>x. x \<notin> set (list_objs ?h1 ! ?nb) \<longrightarrow> row_objs h' ! x = row_objs ?h1 ! x"
      using lr by (auto simp: make_move_def)
    have 1: "make_move_h h a col p = Inr (h', ?nb)" by (simp add: make_move_h_def dc h'(1))
    have 2: "heap_board h' ?nb"
      using hb1 h'(3,4) by (simp add: heap_board_def)
    have 3: "\<forall>x < ?nb. list_objs h' ! x = list_objs h ! x" by (simp add: h'(3) nth_append)
    have 4: "\<forall>x < ?n. row_objs h' ! x = row_objs h ! x"
    proof (intro allI impI)
      fix x assume x: "x < ?n"
      then have "x \<notin> set (list_objs ?h1 ! ?nb)" by simp
      then have "row_objs h' ! x = row_objs ?h1 ! x" using h'(5) by blast
      then show "row_objs h' ! x = row_objs h ! x" using x by (simp add: nth_append)
    qed
    have 5: "\<forall>x \<in> set (list_objs h' ! ?nb). ?n \<le> x" by (simp add: h'(3))
    show ?thesis using Inr 1 2 h'(2) 3 4 5 by simp
  qed
qed

lemma board_at_frame:
  assumes "heap_board h a"
    and "\<forall>x < length (list_objs h). list_objs h' ! x = list_objs h ! x"
    and "\<forall>x < length (row_objs h). row_objs h' ! x = row_objs h ! x"
  shows "board_at h' a = board_at h a"
  using assms by (simp add: board_at_def heap_board_def)

lemma make_move_h_pure:
  assumes hb: "heap_board h a" and mm: "make_move (board_at h a) c p = Inr b'"
  shows "\<exists>h'. make_move_h h a c p = Inr (h', length (list_objs h)) \<and>
           heap_board h' (length (list_objs h)) \<and> board_at h' (length (list_objs h)) = b' \<and>
           board_at h' a = board_at h a \<and>
           (\<forall>x < length (list_objs h). list_objs h' ! x = list_objs h ! x) \<and>
           (\<forall>x < length (row_objs h). row_objs h' ! x = row_objs h ! x) \<and>
           (\<forall>x \<in> set (list_objs h' ! length (list_objs h)). length (row_objs h) \<le> x)"
proof -
  from make_move_h_refines [OF hb, of c p] mm obtain h' where
    h': "make_move_h h a c p = Inr (h', length (list_objs h))"
    "heap_board h' (length (list_objs h))" "board_at h' (length (list_objs h)) = b'"
    "\<forall>x < length (list_objs h). list_objs h' ! x = list_objs h ! x"
    "\<forall>x < length (row_objs h). row_objs h' ! x = row_objs h ! x"
    "\<forall>x \<in> set (list_objs h' ! length (list_objs h)). length (row_objs h) \<le> x"
    by auto
  have "board_at h' a = board_at h a" using board_at_frame [OF hb h'(4,5)] .
  then show ?thesis using h' by blast
qed

text \<open>
  C3. On every reachable board \<open>get_valid_moves\<close> returns exactly the columns
  of 0..6 whose top cell is empty, in ascending order. For each of these columns
  and every player string \<open>make_move\<close> succeeds; the board it returns is well
  formed and equal to the input in every cell but one, the lowest empty cell of
  that column, which now holds the player's piece; the cell below the new piece
  is not empty, and for a piece other than \<open>''.''\<close> the new board satisfies the
  gravity invariant again. On the heap, the result is a new list object whose
  rows are new objects, and every object that existed before the call, the
  input board among them, is unchanged.
\<close>

theorem valid_moves_then_make_move:
  assumes "reachable b"
  shows "get_valid_moves b = Inr (filter (\<lambda>c. at b 0 c = ''.'') [0..COLS - 1]) \<and>
    (\<forall>c \<in> set (filter (\<lambda>c. at b 0 c = ''.'') [0..COLS - 1]). \<forall>p. \<exists>r b'.
        make_move b c p = Inr b' \<and> lowest_empty b c r \<and> wf_board b' \<and>
        (\<forall>r' \<in> {0..ROWS - 1}. \<forall>c' \<in> {0..COLS - 1}.
            at b' r' c' = (if r' = r \<and> c' = c then p else at b r' c')) \<and>
        (r < ROWS - 1 \<longrightarrow> at b' (r + 1) c \<noteq> ''.'') \<and>
        (p \<noteq> ''.'' \<longrightarrow> gravity b') \<and>
        (\<forall>h a. heap_board h a \<and> board_at h a = b \<longrightarrow>
           (\<exists>h'. make_move_h h a c p = Inr (h', length (list_objs h)) \<and>
              heap_board h' (length (list_objs h)) \<and> board_at h' (length (list_objs h)) = b' \<and>
              board_at h' a = b \<and>
              (\<forall>x < length (list_objs h). list_objs h' ! x = list_objs h ! x) \<and>
              (\<forall>x < length (row_objs h). row_objs h' ! x = row_objs h ! x) \<and>
              (\<forall>x \<in> set (list_objs h' ! length (list_objs h)). length (row_objs h) \<le> x))))"
proof (intro conjI ballI allI)
  have wf: "wf_board b" and g: "gravity b" using reachable_invariant [OF assms] by simp_all
  show vm: "get_valid_moves b = Inr (filter (\<lambda>c. at b 0 c = ''.'') [0..COLS - 1])"
    using get_valid_moves_wf [OF wf] by (simp add: COLS_def)
  fix c p assume c: "c \<in> set (filter (\<lambda>c. at b 0 c = ''.'') [0..COLS - 1])"
  note vr = valid_move_range [OF wf vm c]
  obtain r where le: "lowest_empty b c r" using valid_move_lowest [OF wf vm c] ..
  have r: "0 \<le> r" "r < 6" using lowest_emptyD [OF le] by simp_all
  have mm: "make_move b c p = Inr (put b r c p)" using make_move_lowest [OF wf vr(1,2) le] .
  show "\<exists>r b'. make_move b c p = Inr b' \<and> lowest_empty b c r \<and> wf_board b' \<and>
        (\<forall>r' \<in> {0..ROWS - 1}. \<forall>c' \<in> {0..COLS - 1}.
            at b' r' c' = (if r' = r \<and> c' = c then p else at b r' c')) \<and>
        (r < ROWS - 1 \<longrightarrow> at b' (r + 1) c \<noteq> ''.'') \<and>
        (p \<noteq> ''.'' \<longrightarrow> gravity b') \<and>
        (\<forall>h a. heap_board h a \<and> board_at h a = b \<longrightarrow>
           (\<exists>h'. make_move_h h a c p = Inr (h', length (list_objs h)) \<and>
              heap_board h' (length (list_objs h)) \<and> board_at h' (length (list_objs h)) = b' \<and>
              board_at h' a = b \<and>
              (\<forall>x < length (list_objs h). list_objs h' ! x = list_objs h ! x) \<and>
              (\<forall>x < length (row_objs h). row_objs h' ! x = row_objs h ! x) \<and>
              (\<forall>x \<in> set (list_objs h' ! length (list_objs h)). length (row_objs h) \<le> x)))"
  proof (intro exI conjI)
    show "make_move b c p = Inr (put b r c p)" by (rule mm)
    show "lowest_empty b c r" by (rule le)
    show "wf_board (put b r c p)" by (rule wf_board_put [OF wf])
    show "\<forall>r' \<in> {0..ROWS - 1}. \<forall>c' \<in> {0..COLS - 1}.
        at (put b r c p) r' c' = (if r' = r \<and> c' = c then p else at b r' c')"
    proof (intro ballI)
      fix r' c' assume "r' \<in> {0..ROWS - 1}" "c' \<in> {0..COLS - 1}"
      then show "at (put b r c p) r' c' = (if r' = r \<and> c' = c then p else at b r' c')"
        using at_put [OF wf r vr(1,2), of r' c'] by (simp add: ROWS_def COLS_def)
    qed
    show "r < ROWS - 1 \<longrightarrow> at (put b r c p) (r + 1) c \<noteq> ''.''"
    proof
      assume lt: "r < ROWS - 1"
      have "at b (r + 1) c \<noteq> ''.''"
        using lowest_empty_above [OF le, of "r + 1"] lt by (simp add: ROWS_def)
      moreover have "at (put b r c p) (r + 1) c = at b (r + 1) c"
        using at_put [OF wf r vr(1,2), of "r + 1" c] lt r vr by (simp add: ROWS_def)
      ultimately show "at (put b r c p) (r + 1) c \<noteq> ''.''" by simp
    qed
    show "p \<noteq> ''.'' \<longrightarrow> gravity (put b r c p)"
      using gravity_put [OF wf g vr(1,2) le] by simp
    show "\<forall>h a. heap_board h a \<and> board_at h a = b \<longrightarrow>
           (\<exists>h'. make_move_h h a c p = Inr (h', length (list_objs h)) \<and>
              heap_board h' (length (list_objs h)) \<and>
              board_at h' (length (list_objs h)) = put b r c p \<and>
              board_at h' a = b \<and>
              (\<forall>x < length (list_objs h). list_objs h' ! x = list_objs h ! x) \<and>
              (\<forall>x < length (row_objs h). row_objs h' ! x = row_objs h ! x) \<and>
              (\<forall>x \<in> set (list_objs h' ! length (list_objs h)). length (row_objs h) \<le> x))"
    proof (intro allI impI)
      fix h a assume ha: "heap_board h a \<and> board_at h a = b"
      then have hb: "heap_board h a" and ba: "board_at h a = b" by simp_all
      from make_move_h_pure [OF hb mm [folded ba]]
      show "\<exists>h'. make_move_h h a c p = Inr (h', length (list_objs h)) \<and>
              heap_board h' (length (list_objs h)) \<and>
              board_at h' (length (list_objs h)) = put b r c p \<and>
              board_at h' a = b \<and>
              (\<forall>x < length (list_objs h). list_objs h' ! x = list_objs h ! x) \<and>
              (\<forall>x < length (row_objs h). row_objs h' ! x = row_objs h ! x) \<and>
              (\<forall>x \<in> set (list_objs h' ! length (list_objs h)). length (row_objs h) \<le> x)"
        unfolding ba .
    qed
  qed
qed

theorem valid_moves_then_make_move_witness:
  "reachable board_diag \<and>
   get_valid_moves board_diag = Inr [0, 1, 2, 3, 4, 5, 6] \<and>
   make_move board_diag 3 ''Y'' = Inr board_diag_next \<and>
   lowest_empty board_diag 3 1 \<and> wf_board board_diag_next \<and> gravity board_diag_next \<and>
   at board_diag_next 1 3 = ''Y'' \<and> at board_diag_next 2 3 \<noteq> ''.'' \<and>
   heap_board heap_diag 0 \<and> board_at heap_diag 0 = board_diag \<and>
   make_move_h heap_diag 0 3 ''Y'' = Inr (heap_diag_next, 1) \<and>
   board_at heap_diag_next 0 = board_diag \<and> board_at heap_diag_next 1 = board_diag_next"
proof -
  have re: "reachable board_diag"
    using reachable_replay [OF reachable.start replay_diag] .
  note t = valid_moves_then_make_move [OF re]
  have f: "filter (\<lambda>c. at board_diag 0 c = ''.'') [0..COLS - 1] = [0, 1, 2, 3, 4, 5, 6]"
    by code_simp
  have vm: "get_valid_moves board_diag = Inr [0, 1, 2, 3, 4, 5, 6]"
    using conjunct1 [OF t] unfolding f .
  have mm: "make_move board_diag 3 ''Y'' = Inr board_diag_next" by code_simp
  have in3: "3 \<in> set (filter (\<lambda>c. at board_diag 0 c = ''.'') [0..COLS - 1])"
    unfolding f by simp
  from spec [OF bspec [OF conjunct2 [OF t] in3], of "''Y''"]
  obtain r b' where rb: "make_move board_diag 3 ''Y'' = Inr b'"
    "lowest_empty board_diag 3 r" "wf_board b'"
    "r < ROWS - 1 \<longrightarrow> at b' (r + 1) 3 \<noteq> ''.''" "''Y'' \<noteq> ''.'' \<longrightarrow> gravity b'"
    "\<forall>h a. heap_board h a \<and> board_at h a = board_diag \<longrightarrow>
           (\<exists>h'. make_move_h h a 3 ''Y'' = Inr (h', length (list_objs h)) \<and>
              heap_board h' (length (list_objs h)) \<and> board_at h' (length (list_objs h)) = b' \<and>
              board_at h' a = board_diag \<and>
              (\<forall>x < length (list_objs h). list_objs h' ! x = list_objs h ! x) \<and>
              (\<forall>x < length (row_objs h). row_objs h' ! x = row_objs h ! x) \<and>
              (\<forall>x \<in> set (list_objs h' ! length (list_objs h)). length (row_objs h) \<le> x))"
    by (elim exE conjE)
  have b': "b' = board_diag_next" using rb(1) mm by simp
  have le: "lowest_empty board_diag 3 1" by code_simp
  have r: "r = 1" using lowest_empty_unique [OF rb(2) le] .
  have y: "at board_diag_next 1 3 = ''Y''" by (simp add: at_def board_diag_next_def)
  have below: "at board_diag_next 2 3 \<noteq> ''.''" using rb(4) r b' by (simp add: ROWS_def)
  have gr: "gravity board_diag_next" using rb(5) b' by simp
  have hb: "heap_board heap_diag 0" by (simp add: heap_board_def heap_diag_def board_diag_def)
  have ba: "board_at heap_diag 0 = board_diag"
    by (simp add: board_at_def heap_diag_def board_diag_def)
  have hm: "make_move_h heap_diag 0 3 ''Y'' = Inr (heap_diag_next, 1)" by code_simp
  from rb(6) [rule_format, of heap_diag 0] hb ba hm b'
  have after: "board_at heap_diag_next 1 = board_diag_next"
    "board_at heap_diag_next 0 = board_diag"
    by (auto simp: heap_diag_def)
  show ?thesis using re vm mm le rb(3) b' y below gr hb ba hm after by simp
qed

subsection \<open>The tactical check\<close>

lemma find_winning_col_find:
  assumes "wf_board b" "\<forall>c \<in> set cols. 0 \<le> c \<and> c < 7"
  shows "find_winning_col b p cols = Inr (find (wins_by b p) cols)"
  using assms(2)
proof (induction cols)
  case Nil
  then show ?case by simp
next
  case (Cons c cols)
  then have c: "0 \<le> c" "c < 7" by simp_all
  obtain b' where mm: "make_move b c p = Inr b'" using make_move_in_range [OF assms(1) c] ..
  have "wf_board b'" using make_move_unrolled [OF assms(1) c, of p] mm wf_board_put [OF assms(1)]
    by (auto split: if_splits simp: assms(1))
  then have cw: "check_winner b' p = Inr (has_four b' p)" by (simp add: check_winner_wf win_lines_has_four)
  show ?case using Cons mm cw by (simp add: wins_by_def)
qed

lemma find_sorted_least:
  assumes "sorted xs" "find P xs = Some x"
  shows "x \<in> set xs \<and> P x \<and> (\<forall>y \<in> set xs. y < x \<longrightarrow> \<not> P y)"
  using assms
proof (induction xs)
  case Nil
  then show ?case by simp
next
  case (Cons a xs)
  show ?case
  proof (cases "P a")
    case True
    then have "x = a" using Cons.prems(2) by simp
    then show ?thesis using True Cons.prems(1) by auto
  next
    case False
    then have "find P xs = Some x" using Cons.prems(2) by simp
    then have "x \<in> set xs \<and> P x \<and> (\<forall>y \<in> set xs. y < x \<longrightarrow> \<not> P y)"
      using Cons.IH Cons.prems(1) by simp
    then show ?thesis using False by auto
  qed
qed

lemma sorted_valid: "sorted (filter P [0..6::int])"
  using sorted_wrt_filter [of "(\<le>)" "[0..6::int]" P] by simp


lemma find_sorted_Min:
  fixes xs :: "int list"
  assumes "sorted xs" "find P xs = Some x"
  shows "Min {y \<in> set xs. P y} = x"
proof (rule Min_eqI)
  show "finite {y \<in> set xs. P y}" by simp
  show "x \<in> {y \<in> set xs. P y}" using find_sorted_least [OF assms] by simp
  fix y assume "y \<in> {y \<in> set xs. P y}"
  then show "x \<le> y" using find_sorted_least [OF assms] by force
qed

lemma find_None_set: "find P xs = None \<longleftrightarrow> (\<forall>x \<in> set xs. \<not> P x)"
  by (auto simp: find_None_iff)

lemma find_winning_col_least:
  assumes wf: "wf_board b" and vm: "get_valid_moves b = Inr vm"
  shows "find_winning_col b p vm =
     Inr (if \<exists>c \<in> set vm. wins_by b p c then Some (Min {c \<in> set vm. wins_by b p c}) else None)"
proof -
  have vm': "vm = filter (\<lambda>c. at b 0 c = ''.'') [0..6]"
    using vm get_valid_moves_wf [OF wf] by simp
  have rng: "\<forall>c \<in> set vm. 0 \<le> c \<and> c < 7" unfolding vm' by simp
  have so: "sorted vm" unfolding vm' by (rule sorted_valid)
  note f = find_winning_col_find [OF wf rng, of p]
  show ?thesis
  proof (cases "find (wins_by b p) vm")
    case None
    then show ?thesis using f by (simp add: find_None_set)
  next
    case (Some x)
    have "\<exists>c \<in> set vm. wins_by b p c" using find_sorted_least [OF so Some] by blast
    then show ?thesis using f Some find_sorted_Min [OF so Some] by simp
  qed
qed

text \<open>
  C5. On every well-formed board, whose legal columns are \<open>vm\<close>,
  \<open>find_immediate_win_or_block\<close> returns the smallest legal column that wins
  at once for the player when there is one; otherwise the smallest legal column
  that wins at once for the opponent when there is one; otherwise None.
\<close>

theorem find_immediate_win_or_block_least:
  assumes "wf_board b" and "get_valid_moves b = Inr vm"
  shows "find_immediate_win_or_block b p =
     Inr (if \<exists>c \<in> set vm. wins_by b p c then Some (Min {c \<in> set vm. wins_by b p c})
          else if \<exists>c \<in> set vm. wins_by b (get_next_player p) c
               then Some (Min {c \<in> set vm. wins_by b (get_next_player p) c})
          else None)"
proof -
  let ?opp = "get_next_player p"
  have own: "find_winning_col b p vm =
     Inr (if \<exists>c \<in> set vm. wins_by b p c then Some (Min {c \<in> set vm. wins_by b p c}) else None)"
    by (rule find_winning_col_least [OF assms])
  have block: "find_winning_col b ?opp vm =
     Inr (if \<exists>c \<in> set vm. wins_by b ?opp c then Some (Min {c \<in> set vm. wins_by b ?opp c})
          else None)"
    by (rule find_winning_col_least [OF assms])
  show ?thesis
  proof (cases "\<exists>c \<in> set vm. wins_by b p c")
    case True
    then show ?thesis
      unfolding find_immediate_win_or_block_def by (simp add: assms(2) own)
  next
    case False
    then show ?thesis
      unfolding find_immediate_win_or_block_def by (simp add: assms(2) own block Let_def)
  qed
qed

theorem find_immediate_win_or_block_least_witness:
  "wf_board board_both \<and> get_valid_moves board_both = Inr [0, 1, 2, 3, 4, 5, 6] \<and>
   find_immediate_win_or_block board_both ''R'' = Inr (Some 3) \<and>
   find_immediate_win_or_block board_both ''Y'' = Inr (Some 6) \<and>
   find_immediate_win_or_block board_col0_full ''R'' = Inr None \<and>
   (\<exists>c \<in> set [0, 1, 2, 3, 4, 5, 6]. wins_by board_both ''R'' c) \<and>
   Min {c \<in> set [0, 1, 2, 3, 4, 5, 6]. wins_by board_both ''R'' c} = 3"
proof -
  have wf: "wf_board board_both" by (simp add: board_both_def wf_board_def)
  have vm: "get_valid_moves board_both = Inr [0, 1, 2, 3, 4, 5, 6]" by code_simp
  have r: "find_immediate_win_or_block board_both ''R'' = Inr (Some 3)" by code_simp
  have y: "find_immediate_win_or_block board_both ''Y'' = Inr (Some 6)" by code_simp
  have n: "find_immediate_win_or_block board_col0_full ''R'' = Inr None" by code_simp
  have w: "wins_by board_both ''R'' 3" by code_simp
  then have ex: "\<exists>c \<in> set [0, 1, 2, 3, 4, 5, 6]. wins_by board_both ''R'' c" by simp
  from find_immediate_win_or_block_least [OF wf vm, of "''R''"] r ex
  have "Min {c \<in> set [0, 1, 2, 3, 4, 5, 6]. wins_by board_both ''R'' c} = 3" by simp
  then show ?thesis using wf vm r y n ex by simp
qed

subsection \<open>Reflection\<close>

lemma has_four_lines:
  "has_four b p \<longleftrightarrow>
     has_line b p 0 1 \<or> has_line b p 1 0 \<or> has_line b p 1 1 \<or> has_line b p 1 (- 1)"
  unfolding has_four_def has_line_def by blast

lemma mirror_mirror: "mirror (mirror b) = b"
  by (simp add: mirror_def comp_def)

lemma wf_board_mirror: "wf_board b \<Longrightarrow> wf_board (mirror b)"
  by (simp add: wf_board_def mirror_def)

lemma at_mirror:
  assumes "wf_board b" "0 \<le> r" "r < 6" "0 \<le> c" "c < 7"
  shows "at (mirror b) r c = at b r (6 - c)"
proof -
  have r: "nat r < length b" using assms by (simp add: wf_board_def)
  then have len: "length (b ! nat r) = 7" using assms(1) by (simp add: wf_board_def)
  have "nat c < length (b ! nat r)" using len assms by simp
  then have "rev (b ! nat r) ! nat c = (b ! nat r) ! (length (b ! nat r) - Suc (nat c))"
    by (rule rev_nth)
  moreover have "length (b ! nat r) - Suc (nat c) = nat (6 - c)" using len assms by simp
  ultimately show ?thesis using r by (simp add: at_def mirror_def)
qed

lemma four_in_lineD:
  assumes "four_in_line b p r c dr dc" "k \<in> {0..3}"
  shows "on_board (r + k * dr) (c + k * dc)" "at b (r + k * dr) (c + k * dc) = p"
  using assms unfolding four_in_line_def by blast+

lemma four_in_line_mirror:
  assumes wf: "wf_board b" and f: "four_in_line b p r c dr dc"
  shows "four_in_line (mirror b) p r (6 - c) dr (- dc)"
  unfolding four_in_line_def
proof (intro ballI conjI)
  fix k :: int assume k: "k \<in> {0..3}"
  note d = four_in_lineD [OF f k]
  have ob: "0 \<le> r + k * dr" "r + k * dr < 6" "0 \<le> c + k * dc" "c + k * dc < 7"
    using d(1) by (simp_all add: on_board_def ROWS_def COLS_def)
  have e: "6 - c + k * - dc = 6 - (c + k * dc)" by simp
  show "on_board (r + k * dr) (6 - c + k * - dc)"
    unfolding e using ob by (simp add: on_board_def ROWS_def COLS_def)
  have "at (mirror b) (r + k * dr) (6 - (c + k * dc)) = at b (r + k * dr) (6 - (6 - (c + k * dc)))"
    by (rule at_mirror [OF wf]) (use ob in simp_all)
  then show "at (mirror b) (r + k * dr) (6 - c + k * - dc) = p"
    unfolding e using d(2) by simp
qed

lemma four_in_line_origin:
  assumes "four_in_line b p r c dr dc"
  shows "r \<in> {0..5}" "c \<in> {0..6}"
  using four_in_lineD(1) [OF assms, of 0] by (simp_all add: on_board_def ROWS_def COLS_def)

lemma four_in_line_reverse:
  assumes "four_in_line b p r c dr dc"
  shows "four_in_line b p (r + 3 * dr) (c + 3 * dc) (- dr) (- dc)"
  unfolding four_in_line_def
proof (intro ballI)
  fix k :: int assume k: "k \<in> {0..3}"
  then have k': "3 - k \<in> {0..3}" by simp
  have e: "r + 3 * dr + k * - dr = r + (3 - k) * dr" "c + 3 * dc + k * - dc = c + (3 - k) * dc"
    by (simp_all add: algebra_simps)
  show "on_board (r + 3 * dr + k * - dr) (c + 3 * dc + k * - dc) \<and>
        at b (r + 3 * dr + k * - dr) (c + 3 * dc + k * - dc) = p"
    unfolding e using four_in_lineD [OF assms k'] by simp
qed

lemma has_line_mirror_diag:
  assumes wf: "wf_board b" and h: "has_line b p 1 dc"
  shows "has_line (mirror b) p 1 (- dc)"
proof -
  from h obtain r c where f: "four_in_line b p r c 1 dc" unfolding has_line_def by blast
  have m: "four_in_line (mirror b) p r (6 - c) 1 (- dc)" using four_in_line_mirror [OF wf f] .
  show ?thesis unfolding has_line_def using m four_in_line_origin [OF m] by blast
qed

lemma has_line_mirror_horizontal:
  assumes wf: "wf_board b" and h: "has_line b p 0 1"
  shows "has_line (mirror b) p 0 1"
proof -
  from h obtain r c where f: "four_in_line b p r c 0 1" unfolding has_line_def by blast
  have "four_in_line (mirror b) p r (6 - c) 0 (- 1)" using four_in_line_mirror [OF wf f] .
  from four_in_line_reverse [OF this]
  have m: "four_in_line (mirror b) p r (6 - c - 3) 0 1" by simp
  show ?thesis unfolding has_line_def using m four_in_line_origin [OF m] by blast
qed

lemma has_line_mirror_iff:
  assumes wf: "wf_board b"
  shows "has_line (mirror b) p 0 1 \<longleftrightarrow> has_line b p 0 1"
    and "has_line (mirror b) p 1 0 \<longleftrightarrow> has_line b p 1 0"
    and "has_line (mirror b) p 1 (- 1) \<longleftrightarrow> has_line b p 1 1"
    and "has_line (mirror b) p 1 1 \<longleftrightarrow> has_line b p 1 (- 1)"
proof -
  note wm = wf_board_mirror [OF wf]
  show "has_line (mirror b) p 0 1 \<longleftrightarrow> has_line b p 0 1"
    using has_line_mirror_horizontal [OF wf, of p] has_line_mirror_horizontal [OF wm, of p]
    by (auto simp: mirror_mirror)
  show "has_line (mirror b) p 1 0 \<longleftrightarrow> has_line b p 1 0"
    using has_line_mirror_diag [OF wf, of p 0] has_line_mirror_diag [OF wm, of p 0]
    by (auto simp: mirror_mirror)
  show "has_line (mirror b) p 1 (- 1) \<longleftrightarrow> has_line b p 1 1"
    using has_line_mirror_diag [OF wf, of p 1] has_line_mirror_diag [OF wm, of p "- 1"]
    by (auto simp: mirror_mirror)
  show "has_line (mirror b) p 1 1 \<longleftrightarrow> has_line b p 1 (- 1)"
    using has_line_mirror_diag [OF wf, of p "- 1"] has_line_mirror_diag [OF wm, of p 1]
    by (auto simp: mirror_mirror)
qed

text \<open>
  C9. On every well-formed board and for every player string, \<open>check_winner\<close>
  gives the same answer on the board reflected left to right. Reflection keeps
  horizontal and vertical lines of four and exchanges the two diagonal
  directions.
\<close>

theorem check_winner_mirror:
  assumes "wf_board b"
  shows "check_winner (mirror b) p = check_winner b p \<and>
         (has_line (mirror b) p 0 1 \<longleftrightarrow> has_line b p 0 1) \<and>
         (has_line (mirror b) p 1 0 \<longleftrightarrow> has_line b p 1 0) \<and>
         (has_line (mirror b) p 1 (- 1) \<longleftrightarrow> has_line b p 1 1) \<and>
         (has_line (mirror b) p 1 1 \<longleftrightarrow> has_line b p 1 (- 1))"
proof -
  note m = has_line_mirror_iff [OF assms, of p]
  have "has_four (mirror b) p \<longleftrightarrow> has_four b p"
    unfolding has_four_lines using m by blast
  then have "check_winner (mirror b) p = check_winner b p"
    using check_winner_wf [OF assms, of p] check_winner_wf [OF wf_board_mirror [OF assms], of p]
    by (simp add: win_lines_has_four)
  then show ?thesis using m by blast
qed

theorem check_winner_mirror_witness:
  "wf_board board_diag \<and> mirror board_diag = board_diag_mirrored \<and>
   check_winner board_diag_mirrored ''R'' = Inr True \<and>
   check_winner board_diag ''R'' = Inr True \<and>
   has_line board_diag ''R'' 1 (- 1) \<and> has_line board_diag_mirrored ''R'' 1 1"
proof -
  have wf: "wf_board board_diag" by (simp add: board_diag_def wf_board_def)
  have m: "mirror board_diag = board_diag_mirrored"
    by (simp add: mirror_def board_diag_def board_diag_mirrored_def)
  have c: "check_winner board_diag ''R'' = Inr True" by code_simp
  have "four_in_line board_diag ''R'' 2 3 1 (- 1)"
    by (simp add: four_in_line_def ball_0_3 on_board_def ROWS_def COLS_def at_def board_diag_def)
  then have l: "has_line board_diag ''R'' 1 (- 1)"
    unfolding has_line_def by (intro bexI [of _ 2] bexI [of _ 3]) simp_all
  show ?thesis
    using check_winner_mirror [OF wf, of "''R''"] wf c l unfolding m by simp
qed

subsection \<open>The rollout\<close>

text \<open>
  A successful \<open>make_move\<close> on a column of \<open>get_valid_moves\<close> overwrites
  exactly one empty cell, on a board of any shape.
\<close>

lemma count_list_update:
  assumes "i < length xs" "xs ! i = a" "v \<noteq> a"
  shows "Suc (count_list (xs[i := v]) a) = count_list xs a"
  using assms
proof (induction xs arbitrary: i)
  case Nil
  then show ?case by simp
next
  case (Cons x xs)
  then show ?case by (cases i) auto
qed

lemma sum_list_update_less:
  fixes f :: "'a \<Rightarrow> nat"
  assumes "i < length xs" "Suc (f y) = f (xs ! i)"
  shows "Suc (sum_list (map f (xs[i := y]))) = sum_list (map f xs)"
  using assms
proof (induction xs arbitrary: i)
  case Nil
  then show ?case by simp
next
  case (Cons x xs)
  then show ?case by (cases i) auto
qed

lemma empties_update:
  assumes "i < length b" "j < length (b ! i)" "b ! i ! j = ''.''" "v \<noteq> ''.''"
  shows "Suc (empties (b[i := (b ! i)[j := v]])) = empties b"
  unfolding empties_def
  by (rule sum_list_update_less [OF assms(1)]) (rule count_list_update [OF assms(2,3,4)])

lemma empties_update_same:
  assumes "i < length b" "j < length (b ! i)" "b ! i ! j = v"
  shows "b[i := (b ! i)[j := v]] = b"
  using assms by (metis list_update_id)

lemma py_index_nonneg:
  "0 \<le> i \<Longrightarrow> py_index xs i = Inr v \<Longrightarrow> nat i < length xs \<and> v = xs ! nat i"
  by (auto simp: py_index_def split: if_splits)

lemma py_setitem_nonneg:
  "0 \<le> i \<Longrightarrow> py_setitem xs i v = Inr ys \<Longrightarrow> nat i < length xs \<and> ys = xs[nat i := v]"
  by (auto simp: py_setitem_def split: if_splits)

lemma cell_nonneg:
  assumes "0 \<le> r" "0 \<le> c" "cell b r c = Inr v"
  shows "nat r < length b \<and> nat c < length (b ! nat r) \<and> v = b ! nat r ! nat c"
proof -
  from assms(3) obtain x where x: "py_index b r = Inr x" and y: "py_index x c = Inr v"
    by (auto simp: cell_def split: sum.splits)
  have "nat r < length b \<and> x = b ! nat r" using py_index_nonneg [OF assms(1) x] .
  moreover have "nat c < length x \<and> v = x ! nat c" using py_index_nonneg [OF assms(2) y] .
  ultimately show ?thesis by simp
qed

lemma set_cell_nonneg:
  assumes "0 \<le> r" "0 \<le> c" "set_cell b r c v = Inr b'"
  shows "b' = b[nat r := (b ! nat r)[nat c := v]]"
proof -
  from assms(3) obtain x y where x: "py_index b r = Inr x" and y: "py_setitem x c v = Inr y"
    and z: "py_setitem b r y = Inr b'"
    by (auto simp: set_cell_def split: sum.splits)
  have "x = b ! nat r" using py_index_nonneg [OF assms(1) x] by simp
  moreover have "y = x[nat c := v]" using py_setitem_nonneg [OF assms(2) y] by simp
  moreover have "b' = b[nat r := y]" using py_setitem_nonneg [OF assms(1) z] by simp
  ultimately show ?thesis by simp
qed

lemma make_move_loop_cases:
  assumes "\<forall>r \<in> set rows. 0 \<le> r" "0 \<le> c" "make_move_loop b c p rows = Inr b'"
  shows "(\<exists>r \<in> set rows. cell b r c = Inr ''.'' \<and> b' = b[nat r := (b ! nat r)[nat c := p]]) \<or>
         (b' = b \<and> (\<forall>r \<in> set rows. cell b r c \<noteq> Inr ''.''))"
  using assms
proof (induction rows)
  case Nil
  then show ?case by simp
next
  case (Cons r rows)
  from Cons.prems(3) obtain v where v: "cell b r c = Inr v" by (auto split: sum.splits)
  show ?case
  proof (cases "v = ''.''")
    case True
    then have "set_cell b r c p = Inr b'" using Cons.prems(3) v by simp
    then have "b' = b[nat r := (b ! nat r)[nat c := p]]"
      using set_cell_nonneg Cons.prems(1,2) by simp
    then show ?thesis using v True by simp
  next
    case False
    then have "make_move_loop b c p rows = Inr b'" using Cons.prems(3) v by simp
    then show ?thesis using Cons.IH Cons.prems(1,2) v False by auto
  qed
qed

lemma valid_moves_loop_set:
  assumes "valid_moves_loop b cols acc = Inr ms" "c \<in> set ms"
  shows "c \<in> set acc \<or> (c \<in> set cols \<and> cell b 0 c = Inr ''.'')"
  using assms
proof (induction cols arbitrary: acc)
  case Nil
  then show ?case by simp
next
  case (Cons a cols)
  from Cons.prems(1) obtain v where v: "cell b 0 a = Inr v" by (auto split: sum.splits)
  then have "valid_moves_loop b cols (if v = ''.'' then acc @ [a] else acc) = Inr ms"
    using Cons.prems(1) by simp
  from Cons.IH [OF this Cons.prems(2)] show ?case using v by (auto split: if_splits)
qed

lemma get_valid_moves_set:
  assumes "get_valid_moves b = Inr ms" "c \<in> set ms"
  shows "0 \<le> c \<and> c < 7 \<and> cell b 0 c = Inr ''.''"
  using valid_moves_loop_set [OF assms [unfolded get_valid_moves_def]]
  by (auto simp: py_range_def COLS_def)

lemma make_move_valid_empties:
  assumes "get_valid_moves b = Inr ms" "c \<in> set ms" "make_move b c p = Inr b'"
  shows "if p = ''.'' then b' = b else Suc (empties b') = empties b"
proof -
  note v = get_valid_moves_set [OF assms(1,2)]
  have rows: "\<forall>r \<in> set (rev (py_range ROWS)). 0 \<le> r" by (simp add: py_range_def)
  have zero: "0 \<in> set (rev (py_range ROWS))" by (simp add: py_range_def ROWS_def)
  from make_move_loop_cases [OF rows _ assms(3) [unfolded make_move_def]] v zero
  obtain r where r: "0 \<le> r" "cell b r c = Inr ''.''" "b' = b[nat r := (b ! nat r)[nat c := p]]"
    by (auto simp: py_range_def)
  note cn = cell_nonneg [OF r(1) _ r(2)]
  show ?thesis
  proof (cases "p = ''.''")
    case True
    then show ?thesis using r(3) cn v empties_update_same [of "nat r" b "nat c" p] by simp
  next
    case False
    then show ?thesis using r(3) cn v empties_update [of "nat r" b "nat c" p] by simp
  qed
qed

lemma random_choice_member: "random_choice rnd k xs = Inr x \<Longrightarrow> x \<in> set xs"
  by (auto simp: random_choice_def split: if_splits)

lemma random_choice_nonempty: "xs \<noteq> [] \<Longrightarrow> \<exists>x. random_choice rnd k xs = Inr x"
  by (simp add: random_choice_def)

lemma sim_loop_bound:
  "sim_loop rnd k b p = Inr (w, fb, n) \<Longrightarrow> p \<noteq> ''.'' \<Longrightarrow> n \<le> k + empties b"
proof (induction rnd k b p rule: sim_loop.induct)
  case (1 rnd k b p)
  from "1.prems"(1) obtain moves where vm: "get_valid_moves b = Inr moves"
    by (subst (asm) sim_loop.simps) (auto split: sum.splits)
  show ?case
  proof (cases "moves = []")
    case True
    then show ?thesis using "1.prems"(1) vm by (subst (asm) sim_loop.simps) simp
  next
    case False
    from "1.prems"(1) vm False obtain col nb x where
      rc: "random_choice rnd k moves = Inr col" and mm: "make_move b col p = Inr nb"
      and cw: "check_winner nb p = Inr x"
      by (subst (asm) sim_loop.simps) (auto split: sum.splits)
    have e: "Suc (empties nb) = empties b"
      using make_move_valid_empties [OF vm random_choice_member [OF rc] mm] "1.prems"(2) by simp
    show ?thesis
    proof (cases x)
      case True
      then have "n = Suc k" using "1.prems"(1) vm False rc mm cw
        by (subst (asm) sim_loop.simps) simp
      then show ?thesis using e by simp
    next
      case False
      then have "sim_loop rnd (Suc k) nb (get_next_player p) = Inr (w, fb, n)"
        using "1.prems"(1) vm \<open>moves \<noteq> []\<close> rc mm cw by (subst (asm) sim_loop.simps) simp
      moreover have "get_next_player p \<noteq> ''.''" by (simp add: get_next_player_def)
      ultimately have "n \<le> Suc k + empties nb"
        using "1.IH" [OF vm \<open>moves \<noteq> []\<close> rc mm cw] False by simp
      then show ?thesis using e by simp
    qed
  qed
qed

lemma sim_loop_winner:
  "sim_loop rnd k b p = Inr (Some q, fb, n) \<Longrightarrow> p = ''R'' \<or> p = ''Y'' \<Longrightarrow>
   check_winner fb q = Inr True \<and> (q = ''R'' \<or> q = ''Y'')"
proof (induction rnd k b p rule: sim_loop.induct)
  case (1 rnd k b p)
  from "1.prems"(1) obtain moves where vm: "get_valid_moves b = Inr moves"
    by (subst (asm) sim_loop.simps) (auto split: sum.splits)
  have ne: "moves \<noteq> []"
  proof
    assume "moves = []"
    then show False using "1.prems"(1) vm by (subst (asm) sim_loop.simps) simp
  qed
  from "1.prems"(1) vm ne obtain col nb x where
    rc: "random_choice rnd k moves = Inr col" and mm: "make_move b col p = Inr nb"
    and cw: "check_winner nb p = Inr x"
    by (subst (asm) sim_loop.simps) (auto split: sum.splits)
  show ?case
  proof (cases x)
    case True
    then have "q = p \<and> fb = nb" using "1.prems"(1) vm ne rc mm cw
      by (subst (asm) sim_loop.simps) simp
    then show ?thesis using cw True "1.prems"(2) by simp
  next
    case False
    then have "sim_loop rnd (Suc k) nb (get_next_player p) = Inr (Some q, fb, n)"
      using "1.prems"(1) vm ne rc mm cw by (subst (asm) sim_loop.simps) simp
    moreover have "get_next_player p = ''R'' \<or> get_next_player p = ''Y''"
      by (simp add: get_next_player_def)
    ultimately show ?thesis using "1.IH" [OF vm ne rc mm cw] False by simp
  qed
qed

lemma make_move_valid_wf:
  assumes wf: "wf_board b" and vm: "get_valid_moves b = Inr ms" and c: "c \<in> set ms"
  shows "\<exists>b'. make_move b c p = Inr b' \<and> wf_board b'"
proof -
  note vr = valid_move_range [OF wf vm c]
  obtain r where le: "lowest_empty b c r" using valid_move_lowest [OF wf vm c] ..
  show ?thesis using make_move_lowest [OF wf vr(1,2) le] wf_board_put [OF wf] by simp
qed

lemma sim_loop_wf:
  "wf_board b \<Longrightarrow> \<exists>w fb n. sim_loop rnd k b p = Inr (w, fb, n) \<and> wf_board fb"
proof (induction rnd k b p rule: sim_loop.induct)
  case (1 rnd k b p)
  note wf = "1.prems"
  obtain moves where vm: "get_valid_moves b = Inr moves" using get_valid_moves_wf [OF wf] by simp
  show ?case
  proof (cases "moves = []")
    case True
    then show ?thesis using vm wf by (subst sim_loop.simps) simp
  next
    case False
    obtain col where rc: "random_choice rnd k moves = Inr col"
      using random_choice_nonempty [OF False] by blast
    obtain nb where mm: "make_move b col p = Inr nb" and wn: "wf_board nb"
      using make_move_valid_wf [OF wf vm random_choice_member [OF rc]] by blast
    have cw: "check_winner nb p = Inr (win_lines nb p)" using check_winner_wf [OF wn] .
    show ?thesis
    proof (cases "win_lines nb p")
      case True
      then show ?thesis using vm False rc mm cw wn by (subst sim_loop.simps) simp
    next
      case nw: False
      then have cwF: "check_winner nb p = Inr False" using cw by simp
      from "1.IH" [OF vm False rc mm cwF refl wn]
      show ?thesis using vm False rc mm cwF by (subst sim_loop.simps) simp
    qed
  qed
qed

lemma count_list_le_length: "count_list xs a \<le> length xs"
  by (induction xs) auto

lemma sum_list_bounded:
  fixes f :: "'a \<Rightarrow> nat"
  assumes "\<forall>x \<in> set xs. f x \<le> m"
  shows "sum_list (map f xs) \<le> length xs * m"
  using assms by (induction xs) auto

lemma empties_wf:
  assumes "wf_board b"
  shows "empties b \<le> 42"
proof -
  have "\<forall>r \<in> set b. count_list r ''.'' \<le> 7"
  proof
    fix r assume "r \<in> set b"
    then have "length r = 7" using assms unfolding wf_board_def by blast
    then show "count_list r ''.'' \<le> 7" using count_list_le_length [of r "''.''"] by simp
  qed
  from sum_list_bounded [OF this] show ?thesis
    using assms by (simp add: empties_def wf_board_def)
qed

text \<open>
  C8. From every reachable board, for either player and every random source,
  \<open>simulate_game\<close> returns without error after at most 42 moves; its result is
  ''R'', ''Y'' or None (a draw); and when it is a player, that player has four
  in a line on the final board of the simulation.
\<close>

theorem simulate_game_terminates:
  assumes "reachable b" and "p = ''R'' \<or> p = ''Y''"
  shows "\<exists>w fb n. sim_loop rnd 0 b p = Inr (w, fb, n) \<and> simulate_game rnd b p = Inr w \<and>
           n \<le> 42 \<and> (w = None \<or> w = Some ''R'' \<or> w = Some ''Y'') \<and>
           (\<forall>q. w = Some q \<longrightarrow> check_winner fb q = Inr True \<and> has_four fb q)"
proof -
  have wf: "wf_board b" using reachable_invariant [OF assms(1)] by simp
  obtain w fb n where s: "sim_loop rnd 0 b p = Inr (w, fb, n)" and wfb: "wf_board fb"
    using sim_loop_wf [OF wf, of rnd 0 p] by blast
  have p: "p \<noteq> ''.''" using assms(2) by auto
  have n: "n \<le> 42" using sim_loop_bound [OF s p] empties_wf [OF wf] by simp
  have sg: "simulate_game rnd b p = Inr w" by (simp add: simulate_game_def s)
  have win: "check_winner fb q = Inr True \<and> has_four fb q \<and> (q = ''R'' \<or> q = ''Y'')"
    if "w = Some q" for q
  proof -
    have cw: "check_winner fb q = Inr True" "q = ''R'' \<or> q = ''Y''"
      using sim_loop_winner [OF s [unfolded that] assms(2)] by simp_all
    show ?thesis using cw check_winner_wf [OF wfb, of q] by (simp add: win_lines_has_four)
  qed
  have "w = None \<or> w = Some ''R'' \<or> w = Some ''Y''"
  proof (cases w)
    case None
    then show ?thesis by simp
  next
    case (Some q)
    then show ?thesis using win [OF Some] by blast
  qed
  then show ?thesis using s sg n win by blast
qed

theorem simulate_game_terminates_witness:
  "reachable board_both \<and>
   sim_loop (\<lambda>k. 3) 0 board_both ''R'' = Inr (Some ''R'', put board_both 5 3 ''R'', 1) \<and>
   simulate_game (\<lambda>k. 3) board_both ''R'' = Inr (Some ''R'') \<and>
   has_four (put board_both 5 3 ''R'') ''R''"
proof -
  have re: "reachable board_both"
  proof -
    have "replay empty_board moves_both = Some board_both" by code_simp
    then show ?thesis using reachable_replay [OF reachable.start] by blast
  qed
  have s: "sim_loop (\<lambda>k. 3) 0 board_both ''R'' = Inr (Some ''R'', put board_both 5 3 ''R'', 1)"
    by code_simp
  from simulate_game_terminates [OF re, of "''R''" "\<lambda>k. 3"] s
  show ?thesis using re by simp
qed

subsection \<open>Backpropagation\<close>

lemma path_to_root_unique: "path_to_root t a as \<Longrightarrow> path_to_root t a bs \<Longrightarrow> as = bs"
proof (induction arbitrary: bs rule: path_to_root.induct)
  case (root a t)
  from root.prems root.hyps show ?case by (cases rule: path_to_root.cases) auto
next
  case (step a t a' as)
  from step.prems step.hyps(1,2) obtain bs' where "bs = a # bs'" "path_to_root t a' bs'"
    by (cases rule: path_to_root.cases) auto
  then show ?case using step.IH by simp
qed

lemma path_to_root_hd: "path_to_root t a as \<Longrightarrow> \<exists>rest. as = a # rest"
  by (cases rule: path_to_root.cases) auto

lemma path_to_root_suffix:
  "path_to_root t a as \<Longrightarrow> x \<in> set as \<Longrightarrow>
   \<exists>pre post. as = pre @ x # post \<and> path_to_root t x (x # post)"
proof (induction rule: path_to_root.induct)
  case (root a t)
  then have "x = a" by simp
  then show ?case using path_to_root.root [OF root.hyps] by fastforce
next
  case (step a t a' as)
  show ?case
  proof (cases "x = a")
    case True
    then show ?thesis using path_to_root.step [OF step.hyps] by fastforce
  next
    case False
    then have "x \<in> set as" using step.prems by simp
    from step.IH [OF this] obtain pre post where "as = pre @ x # post" "path_to_root t x (x # post)"
      by blast
    then have "a # as = (a # pre) @ x # post" by simp
    then show ?thesis using \<open>path_to_root t x (x # post)\<close> by blast
  qed
qed

lemma path_to_root_distinct: "path_to_root t a as \<Longrightarrow> distinct as"
proof (induction rule: path_to_root.induct)
  case (root a t)
  show ?case by simp
next
  case (step a t a' as)
  have "a \<notin> set as"
  proof
    assume "a \<in> set as"
    from path_to_root_suffix [OF step.hyps(3) this] obtain pre post where
      as: "as = pre @ a # post" and p: "path_to_root t a (a # post)" by blast
    have "path_to_root t a (a # as)" using path_to_root.step [OF step.hyps] .
    from path_to_root_unique [OF this p] have "as = post" by simp
    then show False using as by simp
  qed
  then show ?case using step.IH by simp
qed

lemma path_to_root_in_range: "path_to_root t a as \<Longrightarrow> \<forall>x \<in> set as. x < length t"
  by (induction rule: path_to_root.induct) auto

lemma path_to_root_update:
  assumes "path_to_root t a as" "x < length t" "parent n = parent (t ! x)"
  shows "path_to_root (t[x := n]) a as"
  using assms
proof (induction rule: path_to_root.induct)
  case (root a t)
  have "parent (t[x := n] ! a) = None" using root by (cases "a = x") simp_all
  then show ?case using root.hyps(1) by (simp add: path_to_root.root)
next
  case (step a t a' as)
  have "parent (t[x := n] ! a) = Some a'" using step by (cases "a = x") simp_all
  moreover have "path_to_root (t[x := n]) a' as" using step by simp
  ultimately show ?case using step.hyps(1) by (simp add: path_to_root.step)
qed

lemma backpropagate_path:
  assumes "path_to_root t a as"
  shows "\<exists>t'. backpropagate t (Some a) w = Some t' \<and> length t' = length t \<and>
           (\<forall>m < length t. t' ! m = (if m \<in> set as then credited (t ! m) w else t ! m))"
  using assms
proof (induction as arbitrary: t a rule: list.induct)
  case Nil
  then show ?case using path_to_root_hd by blast
next
  case (Cons x as)
  let ?n2 = "credited (t ! a) w"
  have xa: "x = a" using path_to_root_hd [OF Cons.prems] by simp
  have a: "a < length t" using path_to_root_in_range [OF Cons.prems] xa by simp
  have unfold: "backpropagate t (Some a) w = backpropagate (t[a := ?n2]) (parent (t ! a)) w"
    using a by (subst backpropagate.simps) (simp add: credited_def Let_def)
  have dist: "a \<notin> set as" using path_to_root_distinct [OF Cons.prems] xa by simp
  from Cons.prems show ?case
  proof (cases rule: path_to_root.cases)
    case root
    then have "backpropagate t (Some a) w = Some (t[a := ?n2])"
      using unfold by (simp add: backpropagate.simps)
    then show ?thesis using a root by (auto simp: nth_list_update)
  next
    case (step a')
    have p: "path_to_root (t[a := ?n2]) a' as"
      using path_to_root_update [OF step(4) a, of ?n2] step by (simp add: credited_def)
    from Cons.IH [OF p] obtain t' where t': "backpropagate (t[a := ?n2]) (Some a') w = Some t'"
      "length t' = length t"
      "\<forall>m < length t. t' ! m = (if m \<in> set as then credited (t[a := ?n2] ! m) w else t[a := ?n2] ! m)"
      by auto
    have "backpropagate t (Some a) w = Some t'" using unfold step t'(1) by simp
    moreover have "\<forall>m < length t. t' ! m = (if m \<in> set (x # as) then credited (t ! m) w else t ! m)"
    proof (intro allI impI)
      fix m assume m: "m < length t"
      show "t' ! m = (if m \<in> set (x # as) then credited (t ! m) w else t ! m)"
      proof (cases "m = a")
        case True
        then show ?thesis using t'(3) m dist xa a by simp
      next
        case False
        then show ?thesis using t'(3) m xa by simp
      qed
    qed
    ultimately show ?thesis using t'(2) by blast
  qed
qed


lemma path_to_root_last: "path_to_root t a as \<Longrightarrow> parent (t ! last as) = None"
  by (induction rule: path_to_root.induct) (auto dest: path_to_root_hd)

text \<open>
  C4. For a node \<open>a\<close> of a tree, with \<open>as\<close> the nodes from \<open>a\<close> up to and
  including the root, and for every outcome \<open>w\<close> (None is a draw),
  \<open>backpropagate\<close> returns; it adds exactly 1 to \<open>visits\<close> of every node of
  \<open>as\<close>; it adds exactly 1 to \<open>wins\<close> of exactly those nodes of \<open>as\<close> for
  which \<open>w\<close> is the opponent of the node's player to move; a draw changes no
  \<open>wins\<close>; and nothing else in the store changes.
\<close>

theorem backpropagate_counts:
  assumes "path_to_root t a as"
  shows "hd as = a \<and> parent (t ! last as) = None \<and>
    (\<exists>t'. backpropagate t (Some a) w = Some t' \<and> length t' = length t \<and>
      (\<forall>m < length t.
         visits (t' ! m) = visits (t ! m) + (if m \<in> set as then 1 else 0) \<and>
         wins (t' ! m) = wins (t ! m) +
           (if m \<in> set as \<and> w = Some (get_next_player (current_player (t ! m))) then 1 else 0) \<and>
         (w = None \<longrightarrow> wins (t' ! m) = wins (t ! m)) \<and>
         board (t' ! m) = board (t ! m) \<and> current_player (t' ! m) = current_player (t ! m) \<and>
         parent (t' ! m) = parent (t ! m) \<and> children (t' ! m) = children (t ! m) \<and>
         untried_moves (t' ! m) = untried_moves (t ! m)))"
proof -
  from backpropagate_path [OF assms, of w] obtain t' where
    t': "backpropagate t (Some a) w = Some t'" "length t' = length t"
    "\<forall>m < length t. t' ! m = (if m \<in> set as then credited (t ! m) w else t ! m)"
    by blast
  have "hd as = a" using path_to_root_hd [OF assms] by auto
  moreover have "parent (t ! last as) = None" using path_to_root_last [OF assms] .
  moreover have "\<forall>m < length t.
         visits (t' ! m) = visits (t ! m) + (if m \<in> set as then 1 else 0) \<and>
         wins (t' ! m) = wins (t ! m) +
           (if m \<in> set as \<and> w = Some (get_next_player (current_player (t ! m))) then 1 else 0) \<and>
         (w = None \<longrightarrow> wins (t' ! m) = wins (t ! m)) \<and>
         board (t' ! m) = board (t ! m) \<and> current_player (t' ! m) = current_player (t ! m) \<and>
         parent (t' ! m) = parent (t ! m) \<and> children (t' ! m) = children (t ! m) \<and>
         untried_moves (t' ! m) = untried_moves (t ! m)"
    using t'(3) by (auto simp: credited_def)
  ultimately show ?thesis using t'(1,2) by blast
qed

theorem backpropagate_counts_witness:
  "path_to_root tree_demo 2 [2, 1, 0] \<and>
   (\<exists>t'. backpropagate tree_demo (Some 2) (Some ''R'') = Some t' \<and>
      visits (t' ! 0) = 5 \<and> visits (t' ! 1) = 3 \<and> visits (t' ! 2) = 2 \<and> visits (t' ! 3) = 2 \<and>
      wins (t' ! 0) = 1 \<and> wins (t' ! 1) = 2 \<and> wins (t' ! 2) = 0 \<and> wins (t' ! 3) = 0)"
proof -
  have p0: "path_to_root tree_demo 0 [0]"
    by (rule path_to_root.root) (simp_all add: tree_demo_def)
  have p1: "path_to_root tree_demo 1 [1, 0]"
    by (rule path_to_root.step [OF _ _ p0]) (simp_all add: tree_demo_def)
  have p: "path_to_root tree_demo 2 [2, 1, 0]"
    by (rule path_to_root.step [OF _ _ p1]) (simp_all add: tree_demo_def)
  from conjunct2 [OF conjunct2 [OF backpropagate_counts [OF p, of "Some ''R''"]]]
  obtain t' where b: "backpropagate tree_demo (Some 2) (Some ''R'') = Some t'"
    and a: "\<forall>m < length tree_demo.
         visits (t' ! m) = visits (tree_demo ! m) + (if m \<in> set [2, 1, 0] then 1 else 0) \<and>
         wins (t' ! m) = wins (tree_demo ! m) +
           (if m \<in> set [2, 1, 0] \<and>
               Some ''R'' = Some (get_next_player (current_player (tree_demo ! m))) then 1 else 0) \<and>
         (Some ''R'' = None \<longrightarrow> wins (t' ! m) = wins (tree_demo ! m)) \<and>
         board (t' ! m) = board (tree_demo ! m) \<and>
         current_player (t' ! m) = current_player (tree_demo ! m) \<and>
         parent (t' ! m) = parent (tree_demo ! m) \<and> children (t' ! m) = children (tree_demo ! m) \<and>
         untried_moves (t' ! m) = untried_moves (tree_demo ! m)"
    by (elim exE conjE)
  have l: "0 < length tree_demo" "1 < length tree_demo" "2 < length tree_demo"
    "3 < length tree_demo" by (simp_all add: tree_demo_def)
  have "visits (t' ! 0) = 5 \<and> wins (t' ! 0) = 1"
    using a [rule_format, OF l(1)] by (simp add: tree_demo_def get_next_player_def)
  moreover have "visits (t' ! 1) = 3 \<and> wins (t' ! 1) = 2"
    using a [rule_format, OF l(2)] by (simp add: tree_demo_def get_next_player_def)
  moreover have "visits (t' ! 2) = 2 \<and> wins (t' ! 2) = 0"
    using a [rule_format, OF l(3)] by (simp add: tree_demo_def get_next_player_def)
  moreover have "visits (t' ! 3) = 2 \<and> wins (t' ! 3) = 0"
    using a [rule_format, OF l(4)] by (simp add: tree_demo_def get_next_player_def)
  ultimately show ?thesis using p b by simp
qed

subsection \<open>The search tree and the chosen column\<close>

lemma max_by_visits_first_max:
  assumes "\<forall>x \<in> set pre. visits (t ! x) < visits (t ! b)"
    and "\<forall>x \<in> set mid. visits (t ! x) \<le> visits (t ! b)"
  shows "first_max t (pre @ b # mid @ cs) (max_by_visits t b cs)"
  using assms
proof (induction cs arbitrary: pre b mid)
  case Nil
  then show ?case unfolding first_max_def by auto
next
  case (Cons c cs)
  show ?case
  proof (cases "visits (t ! c) > visits (t ! b)")
    case True
    have "first_max t ((pre @ b # mid) @ c # [] @ cs) (max_by_visits t c cs)"
      by (rule Cons.IH) (use True Cons.prems in force)+
    then show ?thesis using True by simp
  next
    case False
    have "first_max t (pre @ b # (mid @ [c]) @ cs) (max_by_visits t b cs)"
      by (rule Cons.IH) (use False Cons.prems in force)+
    then show ?thesis using False by simp
  qed
qed

lemma max_by_visits_children:
  "first_max t (c # cs) (max_by_visits t c cs)"
  using max_by_visits_first_max [of "[]" t c "[]" cs] by simp

lemma first_max_member: "first_max t cs best \<Longrightarrow> best \<in> set cs"
  unfolding first_max_def by auto

lemma credited_eq:
  "(if w \<noteq> None \<and> w = Some (get_next_player (current_player (n\<lparr>visits := visits n + 1\<rparr>)))
    then (n\<lparr>visits := visits n + 1\<rparr>)\<lparr>wins := wins (n\<lparr>visits := visits n + 1\<rparr>) + 1\<rparr>
    else n\<lparr>visits := visits n + 1\<rparr>) = credited n w"
  by (simp add: credited_def)

lemma credited_fields:
  "board (credited n w) = board n" "current_player (credited n w) = current_player n"
  "children (credited n w) = children n" "untried_moves (credited n w) = untried_moves n"
  "parent (credited n w) = parent n"
  by (simp_all add: credited_def)

lemma backpropagate_frame:
  assumes "backpropagate t node w = Some t'"
  shows "length t' = length t \<and>
   (\<forall>m < length t. board (t' ! m) = board (t ! m) \<and>
      current_player (t' ! m) = current_player (t ! m) \<and>
      children (t' ! m) = children (t ! m) \<and>
      untried_moves (t' ! m) = untried_moves (t ! m) \<and> parent (t' ! m) = parent (t ! m))"
proof (rule backpropagate.raw_induct [where P = "\<lambda>t node w t'. length t' = length t \<and>
   (\<forall>m < length t. board (t' ! m) = board (t ! m) \<and>
      current_player (t' ! m) = current_player (t ! m) \<and>
      children (t' ! m) = children (t ! m) \<and>
      untried_moves (t' ! m) = untried_moves (t ! m) \<and> parent (t' ! m) = parent (t ! m))",
      OF _ assms], goal_cases)
  case (1 f t node w t')
  show ?case
  proof (cases node)
    case None
    then show ?thesis using 1(2) by simp
  next
    case (Some a)
    then have a: "a < length t" using 1(2) by (auto split: if_splits)
    let ?n2 = "credited (t ! a) w"
    have "f (t[a := ?n2]) (parent ?n2) w = Some t'"
      using 1(2) [unfolded Let_def credited_eq] Some a by simp
    then have "f (t[a := ?n2]) (parent (t ! a)) w = Some t'" by (simp add: credited_fields)
    from 1(1) [OF this] have fr: "length t' = length t"
      "\<forall>m < length t. board (t' ! m) = board (t[a := ?n2] ! m) \<and>
      current_player (t' ! m) = current_player (t[a := ?n2] ! m) \<and>
      children (t' ! m) = children (t[a := ?n2] ! m) \<and>
      untried_moves (t' ! m) = untried_moves (t[a := ?n2] ! m) \<and>
      parent (t' ! m) = parent (t[a := ?n2] ! m)"
      by simp_all
    have "\<forall>m < length t. board (t[a := ?n2] ! m) = board (t ! m) \<and>
      current_player (t[a := ?n2] ! m) = current_player (t ! m) \<and>
      children (t[a := ?n2] ! m) = children (t ! m) \<and>
      untried_moves (t[a := ?n2] ! m) = untried_moves (t ! m) \<and>
      parent (t[a := ?n2] ! m) = parent (t ! m)"
      using a by (simp add: nth_list_update credited_fields)
    then show ?thesis using fr by simp
  qed
qed

lemma root_inv_backprop:
  assumes "root_inv b p vm t" "backpropagate t node w = Some t'"
  shows "root_inv b p vm t'"
proof -
  note f = backpropagate_frame [OF assms(2)]
  have 0: "0 < length t" using assms(1) by (simp add: root_inv_def)
  have ch: "\<forall>c \<in> set (children (t ! 0)). c < length t" using assms(1) by (simp add: root_inv_def)
  show ?thesis
    unfolding root_inv_def using assms(1) f 0 ch by (auto simp: root_inv_def)
qed

lemma root_inv_init:
  assumes "new_node b p None = Inr n" "get_valid_moves b = Inr vm"
  shows "root_inv b p vm [n]"
  using assms by (auto simp: new_node_def root_inv_def)

lemma root_inv_expand:
  assumes inv: "root_inv b p vm t" and a: "a < length t" and e: "expand_node t a = Inr (t', c)"
  shows "root_inv b p vm t'"
proof -
  let ?node = "t ! a"
  let ?node1 = "?node\<lparr>untried_moves := butlast (untried_moves ?node)\<rparr>"
  let ?node2 = "?node1\<lparr>children := children ?node1 @ [length t]\<rparr>"
  from e have ne: "untried_moves ?node \<noteq> []"
    by (auto simp: expand_node_def Let_def split: if_splits)
  from e ne obtain nb child where
    mm: "make_move (board ?node) (last (untried_moves ?node)) (current_player ?node) = Inr nb"
    and nn: "new_node nb (get_next_player (current_player ?node)) (Some a) = Inr child"
    and t': "t' = t[a := ?node2] @ [child]"
    by (auto simp: expand_node_def Let_def split: sum.splits)
  have cb: "board child = nb" using nn by (auto simp: new_node_def split: sum.splits)
  have 0: "0 < length t" and b0: "board (t ! 0) = b" and p0: "current_player (t ! 0) = p"
    and un: "set (untried_moves (t ! 0)) \<subseteq> set vm"
    and ch: "\<forall>c \<in> set (children (t ! 0)). c < length t \<and>
        (\<exists>col \<in> set vm. make_move b col p = Inr (board (t ! c)))"
    using inv by (simp_all add: root_inv_def)
  have keep: "board (t' ! m) = board (t ! m)" if "m < length t" for m
    using that a unfolding t' by (simp add: nth_append nth_list_update)
  have new: "t' ! length t = child" unfolding t' by (simp add: nth_append)
  have len: "length t' = Suc (length t)" unfolding t' by simp
  show ?thesis
  proof (cases "a = 0")
    case False
    then have r: "t' ! 0 = t ! 0" using 0 unfolding t' by (simp add: nth_append)
    show ?thesis
      unfolding root_inv_def r using 0 b0 p0 un ch keep len by auto
  next
    case True
    have r: "t' ! 0 = ?node2" using 0 True unfolding t' by (simp add: nth_append)
    have lastin: "last (untried_moves (t ! 0)) \<in> set vm"
      using ne un True last_in_set by blast
    have bl: "set (butlast (untried_moves (t ! 0))) \<subseteq> set vm"
      using un in_set_butlastD by fastforce
    have newc: "\<exists>col \<in> set vm. make_move b col p = Inr (board (t' ! length t))"
      using mm lastin cb new True b0 p0 by auto
    have "\<forall>c \<in> set (children (t' ! 0)). c < length t' \<and>
        (\<exists>col \<in> set vm. make_move b col p = Inr (board (t' ! c)))"
    proof
      fix c assume "c \<in> set (children (t' ! 0))"
      then have "c \<in> set (children (t ! 0)) \<or> c = length t" using r True by auto
      then show "c < length t' \<and> (\<exists>col \<in> set vm. make_move b col p = Inr (board (t' ! c)))"
      proof
        assume c: "c \<in> set (children (t ! 0))"
        then have "c < length t" using ch by blast
        then show ?thesis using ch c keep len by auto
      next
        assume "c = length t"
        then show ?thesis using newc len by simp
      qed
    qed
    moreover have "board (t' ! 0) = b" using keep [OF 0] b0 by simp
    moreover have "current_player (t' ! 0) = p" using r True p0 by simp
    moreover have "set (untried_moves (t' ! 0)) \<subseteq> set vm" using r True bl by simp
    ultimately show ?thesis unfolding root_inv_def using len by simp
  qed
qed

lemma search_tree_root_inv:
  assumes "search_tree b p t" "get_valid_moves b = Inr vm"
  shows "root_inv b p vm t"
  using assms
proof (induction rule: search_tree.induct)
  case (init b p n)
  then show ?case using root_inv_init by blast
next
  case (expand b p t a t' c)
  then show ?case using root_inv_expand by blast
next
  case (backprop b p t a w t')
  then show ?case using root_inv_backprop by blast
qed


lemma make_move_valid_put:
  assumes wf: "wf_board b" and vm: "get_valid_moves b = Inr vm" and c: "c \<in> set vm"
  shows "\<exists>r. lowest_empty b c r \<and> make_move b c p = Inr (put b r c p)"
proof -
  note vr = valid_move_range [OF wf vm c]
  obtain r where le: "lowest_empty b c r" using valid_move_lowest [OF wf vm c] ..
  show ?thesis using make_move_lowest [OF wf vr(1,2) le] le by blast
qed

lemma make_move_inj:
  assumes wf: "wf_board b" and vm: "get_valid_moves b = Inr vm"
    and c1: "c1 \<in> set vm" and c2: "c2 \<in> set vm" and p: "p \<noteq> ''.''"
    and eq: "make_move b c1 p = make_move b c2 p"
  shows "c1 = c2"
proof (rule ccontr)
  assume ne: "c1 \<noteq> c2"
  obtain r1 where r1: "lowest_empty b c1 r1" "make_move b c1 p = Inr (put b r1 c1 p)"
    using make_move_valid_put [OF wf vm c1] by blast
  obtain r2 where r2: "lowest_empty b c2 r2" "make_move b c2 p = Inr (put b r2 c2 p)"
    using make_move_valid_put [OF wf vm c2] by blast
  note v1 = valid_move_range [OF wf vm c1] and v2 = valid_move_range [OF wf vm c2]
  note d1 = lowest_emptyD [OF r1(1)] and d2 = lowest_emptyD [OF r2(1)]
  have "at (put b r1 c1 p) r1 c1 = p"
    using at_put [OF wf d1(1,2) v1(1,2), of r1 c1] d1 v1 by simp
  moreover have "at (put b r2 c2 p) r1 c1 = at b r1 c1"
    using at_put [OF wf d2(1,2) v2(1,2), of r1 c1] d1 v1 ne by simp
  moreover have "put b r1 c1 p = put b r2 c2 p" using eq r1(2) r2(2) by simp
  ultimately show False using d1(3) p by simp
qed

lemma column_leading_to_find:
  assumes "\<forall>c \<in> set cols. \<exists>b'. make_move b c p = Inr b'"
  shows "column_leading_to b p target cols = Inr (find (\<lambda>c. make_move b c p = Inr target) cols)"
  using assms by (induction cols) auto

lemma find_first_Some:
  assumes "x \<in> set xs" "P x"
  shows "\<exists>y. find P xs = Some y \<and> y \<in> set xs \<and> P y"
  using assms by (induction xs) auto

lemma column_leading_to_child:
  assumes wf: "wf_board b" and vm: "get_valid_moves b = Inr vm" and p: "p \<noteq> ''.''"
    and c: "c \<in> set vm" and mm: "make_move b c p = Inr target"
  shows "column_leading_to b p target vm = Inr (Some c)"
proof -
  have "\<forall>c \<in> set vm. \<exists>b'. make_move b c p = Inr b'"
    using make_move_valid_put [OF wf vm] by blast
  then have f: "column_leading_to b p target vm =
      Inr (find (\<lambda>c. make_move b c p = Inr target) vm)"
    by (rule column_leading_to_find)
  obtain y where y: "find (\<lambda>c. make_move b c p = Inr target) vm = Some y" "y \<in> set vm"
    "make_move b y p = Inr target"
    using find_first_Some [of c vm "\<lambda>c. make_move b c p = Inr target"] c mm by blast
  have "y = c" using make_move_inj [OF wf vm y(2) c p] y(3) mm by simp
  then show ?thesis using f y(1) by simp
qed

lemma mcts_finish_first_max:
  assumes "search_tree b p t" "wf_board b" "p = ''R'' \<or> p = ''Y''" "get_valid_moves b = Inr vm"
  shows "(children (t ! 0) = [] \<longrightarrow>
            mcts_finish t 0 b p rnd k = random_choice rnd k vm \<and>
            (vm \<noteq> [] \<longrightarrow> (\<exists>col \<in> set vm. mcts_finish t 0 b p rnd k = Inr col))) \<and>
         (children (t ! 0) \<noteq> [] \<longrightarrow>
            (\<exists>best col. first_max t (children (t ! 0)) best \<and>
               mcts_finish t 0 b p rnd k = Inr col \<and> col \<in> set vm \<and>
               make_move b col p = Inr (board (t ! best)) \<and>
               (\<forall>col' \<in> set vm. make_move b col' p = Inr (board (t ! best)) \<longrightarrow> col' = col)))"
proof (intro conjI impI)
  assume e: "children (t ! 0) = []"
  then show "mcts_finish t 0 b p rnd k = random_choice rnd k vm"
    by (simp add: mcts_finish_def assms(4))
  then show "\<exists>col \<in> set vm. mcts_finish t 0 b p rnd k = Inr col" if "vm \<noteq> []"
    using that by (simp add: random_choice_def)
next
  assume ne: "children (t ! 0) \<noteq> []"
  then obtain c cs where ch: "children (t ! 0) = c # cs" by (cases "children (t ! 0)") auto
  let ?best = "max_by_visits t c cs"
  have p: "p \<noteq> ''.''" using assms(3) by auto
  have fm: "first_max t (children (t ! 0)) ?best" unfolding ch by (rule max_by_visits_children)
  have inv: "root_inv b p vm t" using search_tree_root_inv [OF assms(1,4)] .
  have "?best \<in> set (children (t ! 0))" using first_max_member [OF fm] .
  then obtain col where col: "col \<in> set vm" "make_move b col p = Inr (board (t ! ?best))"
    using inv unfolding root_inv_def by blast
  have cl: "column_leading_to b p (board (t ! ?best)) vm = Inr (Some col)"
    using column_leading_to_child [OF assms(2,4) p col] .
  have res: "mcts_finish t 0 b p rnd k = Inr col"
    by (simp add: mcts_finish_def ch assms(4) cl)
  have uniq: "\<forall>col' \<in> set vm. make_move b col' p = Inr (board (t ! ?best)) \<longrightarrow> col' = col"
    using make_move_inj [OF assms(2,4) _ col(1) p] col(2) by simp
  show "\<exists>best col. first_max t (children (t ! 0)) best \<and>
               mcts_finish t 0 b p rnd k = Inr col \<and> col \<in> set vm \<and>
               make_move b col p = Inr (board (t ! best)) \<and>
               (\<forall>col' \<in> set vm. make_move b col' p = Inr (board (t ! best)) \<longrightarrow> col' = col)"
    using fm res col uniq by blast
qed

lemma best_child_loop_member:
  "best_child_loop uct_gt t best cs = Some c \<Longrightarrow> best = Some c \<or> c \<in> set cs"
  by (induction cs arbitrary: best) (auto split: if_splits)

lemma best_child_member: "best_child uct_gt t node = Some c \<Longrightarrow> c \<in> set (children (t ! node))"
  unfolding best_child_def using best_child_loop_member by fastforce

lemma select_node_in_range:
  assumes "select_node uct_gt t node = Some (Inr a)" "refs_ok t" "node < length t"
  shows "a < length t"
proof -
  have "refs_ok t \<longrightarrow> node < length t \<longrightarrow> (\<forall>a. res = Inr a \<longrightarrow> a < length t)"
    if "select_node uct_gt t node = Some res" for res
    using that
  proof (rule select_node.raw_induct [where P = "\<lambda>u t node res.
      refs_ok t \<longrightarrow> node < length t \<longrightarrow> (\<forall>a. res = Inr a \<longrightarrow> a < length t)", rotated],
      goal_cases)
    case (1 f u t node res)
    show ?case
    proof (intro impI allI)
      fix a assume ok: "refs_ok t" and n: "node < length t" and r: "res = Inr a"
      show "a < length t"
      proof (cases "untried_moves (t ! node) = [] \<and> children (t ! node) \<noteq> []")
        case False
        then show ?thesis using 1(2) r n by auto
      next
        case True
        then obtain c where c: "best_child u t node = Some c" and f: "f u t c = Some res"
          using 1(2) r by (auto split: option.splits)
        have "c < length t" using best_child_member [OF c] ok n by (auto simp: refs_ok_def)
        then show ?thesis using 1(1) [OF f] ok r by blast
      qed
    qed
  qed
  then show ?thesis using assms by blast
qed


lemma new_node_children: "new_node b p par = Inr n \<Longrightarrow> children n = []"
  unfolding new_node_def by (cases "get_valid_moves b") auto

lemma refs_ok_init:
  assumes "new_node b p None = Inr n"
  shows "refs_ok [n]"
proof -
  have e: "children n = []" using assms by (rule new_node_children)
  show ?thesis
    unfolding refs_ok_def
  proof (intro conjI allI impI ballI)
    show "0 < length [n]" by simp
  next
    fix a c assume "a < length [n]" and c: "c \<in> set (children ([n] ! a))"
    then have "a = 0" by simp
    then have "c \<in> set (children n)" using c by simp
    then show "c < length [n]" using e by simp
  qed
qed

lemma expand_node_shape:
  assumes "expand_node t a = Inr (t', c)"
  shows "\<exists>child node2. c = length t \<and> children child = [] \<and>
     children node2 = children (t ! a) @ [length t] \<and> t' = t[a := node2] @ [child]"
proof -
  let ?node = "t ! a"
  let ?node1 = "?node\<lparr>untried_moves := butlast (untried_moves ?node)\<rparr>"
  let ?node2 = "?node1\<lparr>children := children ?node1 @ [length t]\<rparr>"
  from assms have ne: "untried_moves ?node \<noteq> []"
    by (auto simp: expand_node_def Let_def split: if_splits)
  from assms ne obtain nb child where
    mm: "make_move (board ?node) (last (untried_moves ?node)) (current_player ?node) = Inr nb"
    and nn: "new_node nb (get_next_player (current_player ?node)) (Some a) = Inr child"
    and t': "t' = t[a := ?node2] @ [child]"
    by (auto simp: expand_node_def Let_def split: sum.splits)
  have c: "c = length t" using assms ne mm nn by (simp add: expand_node_def Let_def)
  have "children child = []" using nn by (rule new_node_children)
  moreover have "children ?node2 = children (t ! a) @ [length t]" by simp
  ultimately show ?thesis using t' c by blast
qed

lemma refs_ok_expand:
  assumes ok: "refs_ok t" and a: "a < length t" and e: "expand_node t a = Inr (t', c)"
  shows "refs_ok t' \<and> c < length t'"
proof -
  from expand_node_shape [OF e] obtain child node2 where c: "c = length t"
    and ch: "children child = []" and ch2: "children node2 = children (t ! a) @ [length t]"
    and t': "t' = t[a := node2] @ [child]"
    by blast
  have len: "length t' = Suc (length t)" unfolding t' by simp
  have "\<forall>x \<in> set (children (t' ! m)). x < length t'" if m: "m < length t'" for m
  proof (cases "m = length t")
    case True
    then show ?thesis unfolding t' using ch by (simp add: nth_append)
  next
    case False
    then have m': "m < length t" using m len by simp
    have old: "\<forall>x \<in> set (children (t ! m)). x < length t" using ok m' by (simp add: refs_ok_def)
    show ?thesis
    proof (cases "m = a")
      case True
      then show ?thesis unfolding t' using a old ch2 by (auto simp: nth_append)
    next
      case False
      then show ?thesis unfolding t' using m' old by (auto simp: nth_append)
    qed
  qed
  then show ?thesis using len c by (simp add: refs_ok_def)
qed

lemma refs_ok_backprop:
  assumes "refs_ok t" "backpropagate t node w = Some t'"
  shows "refs_ok t'"
  using assms backpropagate_frame [OF assms(2)] by (simp add: refs_ok_def)

lemma mcts_pass_search_tree:
  assumes st: "search_tree b p t" and ok: "refs_ok t"
    and pass: "mcts_pass uct_gt rnd t k = Some (Inr (t', k'))"
  shows "search_tree b p t' \<and> refs_ok t'"
proof -
  from pass obtain node where sel: "select_node uct_gt t 0 = Some (Inr node)"
    by (auto simp: mcts_pass_def split: option.splits sum.splits)
  have n: "node < length t" using select_node_in_range [OF sel ok] ok by (simp add: refs_ok_def)
  from pass sel obtain t1 node1 winner fb where
    ex: "(if untried_moves (t ! node) \<noteq> [] then expand_node t node else Inr (t, node)) =
        Inr (t1, node1)"
    and bp: "backpropagate t1 (Some node1) winner = Some t'"
    by (auto simp: mcts_pass_def split: option.splits sum.splits)
  have 1: "search_tree b p t1 \<and> refs_ok t1 \<and> node1 < length t1"
  proof (cases "untried_moves (t ! node) \<noteq> []")
    case True
    then have e: "expand_node t node = Inr (t1, node1)" using ex by simp
    show ?thesis using search_tree.expand [OF st n e] refs_ok_expand [OF ok n e] by simp
  next
    case False
    then show ?thesis using ex st ok n by simp
  qed
  then show ?thesis using search_tree.backprop [OF _ _ bp] refs_ok_backprop [OF _ bp] by blast
qed

lemma mcts_loop_search_tree:
  assumes "search_tree b p t" "refs_ok t"
    and "mcts_loop passes uct_gt rnd t k = Some (Inr (t', k'))"
  shows "search_tree b p t'"
  using assms
proof (induction passes arbitrary: t k)
  case 0
  then show ?case by simp
next
  case (Suc passes)
  from Suc.prems(3) obtain t1 k1 where p: "mcts_pass uct_gt rnd t k = Some (Inr (t1, k1))"
    and l: "mcts_loop passes uct_gt rnd t1 k1 = Some (Inr (t', k'))"
    by (auto split: option.splits sum.splits)
  from mcts_pass_search_tree [OF Suc.prems(1,2) p] Suc.IH l show ?case by blast
qed

lemma mcts_after_loop:
  assumes "new_node b p None = Inr root"
    and "mcts_loop passes uct_gt rnd [root] k = Some (Inr (t, k'))"
  shows "mcts passes uct_gt rnd k b p = Some (mcts_finish t 0 b p rnd k')"
  using assms by (simp add: mcts_def)

text \<open>
  C7. Let the search loop of \<open>mcts\<close>, for a well-formed root board \<open>b\<close> with legal
  columns \<open>vm\<close> and the player ''R'' or ''Y'', end after some number of passes
  with the store \<open>t\<close>, whatever the UCT comparisons and the random draws were.
  When the root has children, \<open>mcts\<close> returns the column whose move from \<open>b\<close>
  gives the board of the child with the greatest visit count, the first such
  child in the order of the children, and no other legal column gives that
  board. When the root has no children, \<open>mcts\<close> returns what \<open>random.choice\<close>
  picks among the legal columns, which is a legal column when there is one.
\<close>

theorem mcts_most_visited:
  assumes wf: "wf_board b" and p: "p = ''R'' \<or> p = ''Y''" and vm: "get_valid_moves b = Inr vm"
    and root: "new_node b p None = Inr root"
    and loop: "mcts_loop passes uct_gt rnd [root] k = Some (Inr (t, k'))"
  shows "(children (t ! 0) \<noteq> [] \<longrightarrow>
            (\<exists>best col. first_max t (children (t ! 0)) best \<and>
               mcts passes uct_gt rnd k b p = Some (Inr col) \<and> col \<in> set vm \<and>
               make_move b col p = Inr (board (t ! best)) \<and>
               (\<forall>col' \<in> set vm. make_move b col' p = Inr (board (t ! best)) \<longrightarrow> col' = col))) \<and>
         (children (t ! 0) = [] \<longrightarrow>
            mcts passes uct_gt rnd k b p = Some (random_choice rnd k' vm) \<and>
            (vm \<noteq> [] \<longrightarrow> (\<exists>col \<in> set vm. mcts passes uct_gt rnd k b p = Some (Inr col))))"
proof -
  have st0: "search_tree b p [root]" using root by (rule search_tree.init)
  have ok0: "refs_ok [root]" using root by (rule refs_ok_init)
  have st: "search_tree b p t" using mcts_loop_search_tree [OF st0 ok0 loop] .
  have m: "mcts passes uct_gt rnd k b p = Some (mcts_finish t 0 b p rnd k')"
    using root loop by (rule mcts_after_loop)
  note f = mcts_finish_first_max [OF st wf p vm, of rnd k']
  show ?thesis
  proof (intro conjI impI)
    assume ne: "children (t ! 0) \<noteq> []"
    show "\<exists>best col. first_max t (children (t ! 0)) best \<and>
               mcts passes uct_gt rnd k b p = Some (Inr col) \<and> col \<in> set vm \<and>
               make_move b col p = Inr (board (t ! best)) \<and>
               (\<forall>col' \<in> set vm. make_move b col' p = Inr (board (t ! best)) \<longrightarrow> col' = col)"
      using conjunct2 [OF f, rule_format, OF ne] unfolding m by simp
  next
    assume e: "children (t ! 0) = []"
    note r = conjunct1 [OF f, rule_format, OF e]
    show "mcts passes uct_gt rnd k b p = Some (random_choice rnd k' vm)"
      using conjunct1 [OF r] unfolding m by simp
    show "\<exists>col \<in> set vm. mcts passes uct_gt rnd k b p = Some (Inr col)" if "vm \<noteq> []"
      using conjunct2 [OF r, rule_format, OF that] unfolding m by simp
  qed
qed

theorem mcts_most_visited_witness:
  "mcts_loop 3 uct_last rnd_demo [node_run0] 0 = Some (Inr (tree_run3, 15)) \<and>
   map visits tree_run3 = [3, 1, 2, 1] \<and> children (tree_run3 ! 0) = [1, 2] \<and>
   first_max tree_run3 [1, 2] 2 \<and>
   make_move board_two_open 5 ''R'' = Inr (board (tree_run3 ! 2)) \<and>
   mcts 3 uct_last rnd_demo 0 board_two_open ''R'' = Some (Inr 5) \<and>
   mcts_loop 2 uct_last rnd_demo [node_run0] 0 = Some (Inr (tree_run2, 13)) \<and>
   map visits tree_run2 = [2, 1, 1] \<and> first_max tree_run2 [1, 2] 1 \<and>
   make_move board_two_open 6 ''R'' = Inr (board (tree_run2 ! 1)) \<and>
   mcts 2 uct_last rnd_demo 0 board_two_open ''R'' = Some (Inr 6) \<and>
   mcts_loop 0 uct_last rnd_demo [node_run0] 1 = Some (Inr ([node_run0], 1)) \<and>
   mcts 0 uct_last rnd_demo 1 board_two_open ''R'' = Some (Inr 6)"
proof -
  have wf: "wf_board board_two_open" by (simp add: board_two_open_def wf_board_def)
  have vm: "get_valid_moves board_two_open = Inr [5, 6]" by code_simp
  have p: "''R'' = ''R'' \<or> ''R'' = ''Y''" by simp
  have root: "new_node board_two_open ''R'' None = Inr node_run0" by code_simp
  have l3: "mcts_loop 3 uct_last rnd_demo [node_run0] 0 = Some (Inr (tree_run3, 15))" by code_simp
  have l2: "mcts_loop 2 uct_last rnd_demo [node_run0] 0 = Some (Inr (tree_run2, 13))" by code_simp
  have l0: "mcts_loop 0 uct_last rnd_demo [node_run0] 1 = Some (Inr ([node_run0], 1))" by simp
  note r3 = mcts_most_visited [OF wf p vm root l3]
  note r2 = mcts_most_visited [OF wf p vm root l2]
  note r0 = mcts_most_visited [OF wf p vm root l0]
  have c3: "children (tree_run3 ! 0) = [1, 2]" by (simp add: tree_run3_def)
  have c2: "children (tree_run2 ! 0) = [1, 2]" by (simp add: tree_run2_def)
  have c0: "children ([node_run0] ! 0) = []" by (simp add: node_run0_def)
  have v3: "map visits tree_run3 = [3, 1, 2, 1]" by (simp add: tree_run3_def)
  have v2: "map visits tree_run2 = [2, 1, 1]" by (simp add: tree_run2_def)
  have f3: "first_max tree_run3 [1, 2] 2"
    unfolding first_max_def
    by (rule exI [of _ "[1]"], rule exI [of _ "[]"]) (simp add: tree_run3_def)
  have f2: "first_max tree_run2 [1, 2] 1"
    unfolding first_max_def
    by (rule exI [of _ "[]"], rule exI [of _ "[2]"]) (simp add: tree_run2_def)
  have b3: "make_move board_two_open 5 ''R'' = Inr (board (tree_run3 ! 2))" by code_simp
  have b2: "make_move board_two_open 6 ''R'' = Inr (board (tree_run2 ! 1))" by code_simp
  have m3: "mcts 3 uct_last rnd_demo 0 board_two_open ''R'' = Some (Inr 5)" by code_simp
  have e3: "\<exists>best. first_max tree_run3 [1, 2] best \<and>
      make_move board_two_open 5 ''R'' = Inr (board (tree_run3 ! best))"
    using conjunct1 [OF r3] c3 m3 by auto
  have m2: "mcts 2 uct_last rnd_demo 0 board_two_open ''R'' = Some (Inr 6)" by code_simp
  have e2: "\<exists>best. first_max tree_run2 [1, 2] best \<and>
      make_move board_two_open 6 ''R'' = Inr (board (tree_run2 ! best))"
    using conjunct1 [OF r2] c2 m2 by auto
  have m0: "mcts 0 uct_last rnd_demo 1 board_two_open ''R'' = Some (Inr 6)"
    using conjunct1 [OF conjunct2 [OF r0, rule_format, OF c0]] by code_simp
  show ?thesis using l3 v3 c3 f3 b3 m3 l2 v2 f2 b2 m2 l0 m0 by simp
qed


subsection \<open>The decision policy\<close>

lemma double_literals:
  "draw_below n 3602879701896397 54 \<longleftrightarrow> 100 * n < 20 * 2 ^ 53"
  "draw_below n 5404319552844595 55 \<longleftrightarrow> 100 * n < 15 * 2 ^ 53"
  "draw_below n 3602879701896397 55 \<longleftrightarrow> 100 * n < 10 * 2 ^ 53"
  "draw_below n 3602879701896397 56 \<longleftrightarrow> 100 * n < 5 * 2 ^ 53"
  unfolding draw_below_def by (simp_all, presburger+)

text \<open>
  C6. \<open>ai_move\<close> returns the column that \<open>random.choice\<close> picks among the
  legal columns exactly when the difficulty is 1, 2, 3 or 4 and the draw is
  below the threshold of that difficulty; at difficulty 5 it returns the column
  of the tactical check when there is one and the result of the search
  otherwise; in every other case it returns the result of the search, and the
  tactical check has no part in the result.
\<close>

theorem ai_move_policy:
  "ai_move search n rnd k b p d =
     (if d \<in> {1, 2, 3, 4} \<and> below_threshold n d then
        (case get_valid_moves b of Inl e \<Rightarrow> Inl e | Inr moves \<Rightarrow> random_choice rnd k moves)
      else if d = 5 then
        (case find_immediate_win_or_block b p of
           Inl e \<Rightarrow> Inl e
         | Inr (Some col) \<Rightarrow> Inr col
         | Inr None \<Rightarrow> search b p)
      else search b p) \<and>
   (d \<in> {1, 2, 3, 4} \<and> below_threshold n d \<and> get_valid_moves b = Inr vm \<and> vm \<noteq> [] \<longrightarrow>
      ai_move search n rnd k b p d = Inr (vm ! (rnd k mod length vm)) \<and>
      vm ! (rnd k mod length vm) \<in> set vm)"
proof -
  let ?random = "case get_valid_moves b of Inl e \<Rightarrow> Inl e | Inr moves \<Rightarrow> random_choice rnd k moves"
  let ?tact = "case find_immediate_win_or_block b p of
      Inl e \<Rightarrow> Inl e | Inr (Some col) \<Rightarrow> Inr col | Inr None \<Rightarrow> search b p"
  have cond: "(d = 1 \<and> draw_below n 3602879701896397 54) \<or>
      (d = 2 \<and> draw_below n 5404319552844595 55) \<or>
      (d = 3 \<and> draw_below n 3602879701896397 55) \<or>
      (d = 4 \<and> draw_below n 3602879701896397 56) \<longleftrightarrow>
      d \<in> {1, 2, 3, 4} \<and> below_threshold n d"
    by (auto simp: double_literals below_threshold_def threshold_percent_def)
  have eq: "ai_move search n rnd k b p d =
      (if d \<in> {1, 2, 3, 4} \<and> below_threshold n d then ?random
       else (case (if d = 5 then find_immediate_win_or_block b p else Inr None) of
           Inl e \<Rightarrow> Inl e | Inr (Some col) \<Rightarrow> Inr col | Inr None \<Rightarrow> search b p))"
    unfolding ai_move_def cond by (rule refl)
  have rest: "(case (if d = 5 then find_immediate_win_or_block b p else Inr None) of
           Inl e \<Rightarrow> Inl e | Inr (Some col) \<Rightarrow> Inr col | Inr None \<Rightarrow> search b p) =
      (if d = 5 then ?tact else search b p)"
    by simp
  have first: "ai_move search n rnd k b p d =
      (if d \<in> {1, 2, 3, 4} \<and> below_threshold n d then ?random
       else if d = 5 then ?tact else search b p)"
    unfolding eq rest by (rule refl)
  have second: "ai_move search n rnd k b p d = Inr (vm ! (rnd k mod length vm)) \<and>
      vm ! (rnd k mod length vm) \<in> set vm"
    if "d \<in> {1, 2, 3, 4} \<and> below_threshold n d \<and> get_valid_moves b = Inr vm \<and> vm \<noteq> []"
  proof -
    have "ai_move search n rnd k b p d = random_choice rnd k vm"
      unfolding first using that by simp
    moreover have "rnd k mod length vm < length vm" using that by simp
    ultimately show ?thesis using that by (simp add: random_choice_def)
  qed
  show ?thesis using first second by blast
qed

theorem ai_move_policy_witness:
  "below_threshold (2 ^ 50) 1 \<and> \<not> below_threshold (2 ^ 50) 4 \<and>
   ai_move (\<lambda>b p. Inr 0) (2 ^ 50) (\<lambda>k. 2) 0 board_both ''Y'' 1 = Inr 2 \<and>
   ai_move (\<lambda>b p. Inr 0) (2 ^ 50) (\<lambda>k. 2) 0 board_both ''Y'' 4 = Inr 0 \<and>
   ai_move (\<lambda>b p. Inr 0) 0 (\<lambda>k. 2) 0 board_both ''Y'' 5 = Inr 6 \<and>
   ai_move (\<lambda>b p. Inr 0) 0 (\<lambda>k. 2) 0 empty_board ''Y'' 5 = Inr 0"
proof -
  have vm: "get_valid_moves board_both = Inr [0, 1, 2, 3, 4, 5, 6]" by code_simp
  have y: "find_immediate_win_or_block board_both ''Y'' = Inr (Some 6)" by code_simp
  have e: "find_immediate_win_or_block empty_board ''Y'' = Inr None" by code_simp
  have b1: "below_threshold (2 ^ 50) 1"
    by (simp add: below_threshold_def threshold_percent_def)
  have b4: "\<not> below_threshold (2 ^ 50) 4"
    by (simp add: below_threshold_def threshold_percent_def)
  have 1: "ai_move (\<lambda>b p. Inr 0) (2 ^ 50) (\<lambda>k. 2) 0 board_both ''Y'' 1 = Inr 2"
    using ai_move_policy [of "\<lambda>b p. Inr 0" "2 ^ 50" "\<lambda>k. 2" 0 board_both "''Y''" 1
        "[0, 1, 2, 3, 4, 5, 6]"] vm b1
    by (simp add: random_choice_def)
  have 2: "ai_move (\<lambda>b p. Inr 0) (2 ^ 50) (\<lambda>k. 2) 0 board_both ''Y'' 4 = Inr 0"
    using ai_move_policy [of "\<lambda>b p. Inr 0" "2 ^ 50" "\<lambda>k. 2" 0 board_both "''Y''" 4] b4
    by simp
  have 3: "ai_move (\<lambda>b p. Inr 0) 0 (\<lambda>k. 2) 0 board_both ''Y'' 5 = Inr 6"
    using ai_move_policy [of "\<lambda>b p. Inr 0" 0 "\<lambda>k. 2" 0 board_both "''Y''" 5] y
    by simp
  have 4: "ai_move (\<lambda>b p. Inr 0) 0 (\<lambda>k. 2) 0 empty_board ''Y'' 5 = Inr 0"
    using ai_move_policy [of "\<lambda>b p. Inr 0" 0 "\<lambda>k. 2" 0 empty_board "''Y''" 5] e
    by simp
  show ?thesis using b1 b4 1 2 3 4 by simp
qed

end
